theory Spec2Isabelle
  imports Complex_Main
begin

section \<open>Markers and tracks of the motion tracking kernel\<close>

text \<open>
  The definitions below embed functions of
  \<^verbatim>\<open>source/blender/blenkernel/intern/tracking.c\<close>.
  C \<^verbatim>\<open>float\<close> values are modelled as real numbers and C \<^verbatim>\<open>int\<close> frame numbers as
  unbounded integers (signed overflow is undefined in C, so no wrap-around is modelled).
  A pointer into a track's marker array is modelled as an index into the marker list;
  the array length \<^verbatim>\<open>markersnr\<close> is the length of that list.
\<close>

type_synonym vec2 = "real \<times> real"

text \<open>
  Modelled from the spec: the bit masks \<^verbatim>\<open>MARKER_DISABLED\<close> and \<^verbatim>\<open>MARKER_TRACKED\<close> are
  defined in a header that is not part of the sources at hand. The data model describes the flags
  of a marker as a subset of {DISABLED, TRACKED}; \<^verbatim>\<open>flag |= M\<close> is insertion, \<^verbatim>\<open>flag &= ~M\<close>
  is removal and \<^verbatim>\<open>flag & M\<close> is membership.
\<close>

datatype marker_flag = MARKER_DISABLED | MARKER_TRACKED

record MovieTrackingMarker =
  framenr :: int
  pos :: vec2
  pattern_corners :: "vec2 \<times> vec2 \<times> vec2 \<times> vec2"
  search_min :: vec2
  search_max :: vec2
  flag :: "marker_flag set"








section \<open>The marker store\<close>

text \<open>
  What C leaves undefined is a value of the model: dereferencing the null pointer that
  \<^verbatim>\<open>BKE_tracking_marker_get\<close> returns for a track without markers, and addressing the
  marker array outside of its bounds.
\<close>

datatype fault = NullDereference | OutOfBounds

text \<open>
  Modelled from the spec: the \<^verbatim>\<open>TRACK_*\<close> bit masks of a track's \<^verbatim>\<open>flag\<close> come from a
  header outside the sources at hand; the flags are modelled as a set, as for markers.
\<close>

datatype track_flag = TRACK_HAS_BUNDLE | TRACK_USE_2D_STAB | TRACK_HIDDEN | TRACK_LOCKED

type_synonym vec3 = "real \<times> real \<times> real"

record MovieTrackingTrack =
  markers :: "MovieTrackingMarker list"
  last_marker :: int
  track_flag :: "track_flag set"
  bundle_pos :: vec3
  error :: real

text \<open>
  \<^verbatim>\<open>BKE_tracking_marker_get\<close>, the upward scan
  \<^verbatim>\<open>while (a < track->markersnr && track->markers[a].framenr <= framenr)\<close>: the result is the
  index of the marker returned and whether it was an exact hit (the only case in which
  \<^verbatim>\<open>last_marker\<close> is written). After the loop the code returns \<^verbatim>\<open>&track->markers[a - 1]\<close>.
\<close>

function marker_get_scan_up :: "MovieTrackingMarker list \<Rightarrow> int \<Rightarrow> nat \<Rightarrow> fault + (nat \<times> bool)" where
  "marker_get_scan_up ms fr a =
     (if a < length ms \<and> framenr (ms ! a) \<le> fr then
        (if framenr (ms ! a) = fr then Inr (a, True) else marker_get_scan_up ms fr (a + 1))
      else (if a = 0 then Inl OutOfBounds else Inr (a - 1, False)))"
  by pat_completeness auto
termination
  by (relation "measure (\<lambda>(ms, fr, a). length ms - a)") auto

declare marker_get_scan_up.simps [simp del]

text \<open>
  The downward scan \<^verbatim>\<open>while (a >= 0 && track->markers[a].framenr >= framenr)\<close>; after the loop
  the code returns \<^verbatim>\<open>&track->markers[a]\<close>, which lies before the array when \<^verbatim>\<open>a\<close> has
  reached -1.
\<close>

fun marker_get_scan_down :: "MovieTrackingMarker list \<Rightarrow> int \<Rightarrow> nat \<Rightarrow> fault + (nat \<times> bool)" where
  "marker_get_scan_down ms fr 0 =
     (if framenr (ms ! 0) \<ge> fr then
        (if framenr (ms ! 0) = fr then Inr (0, True) else Inl OutOfBounds)
      else Inr (0, False))"
| "marker_get_scan_down ms fr (Suc a) =
     (if framenr (ms ! Suc a) \<ge> fr then
        (if framenr (ms ! Suc a) = fr then Inr (Suc a, True) else marker_get_scan_down ms fr a)
      else Inr (Suc a, False))"

text \<open>
  \<^verbatim>\<open>BKE_tracking_marker_get\<close>: \<open>None\<close> is the null pointer, \<open>Some i\<close> the address of
  \<^verbatim>\<open>track->markers[i]\<close>; the track is returned with its cursor \<^verbatim>\<open>last_marker\<close> as the call
  leaves it.
\<close>

definition BKE_tracking_marker_get ::
    "MovieTrackingTrack \<Rightarrow> int \<Rightarrow> fault + (nat option \<times> MovieTrackingTrack)" where
  "BKE_tracking_marker_get track fr =
     (let n = length (markers track) in
      if n = 0 then Inr (None, track)
      else if fr < framenr (markers track ! 0) then Inr (Some 0, track)
      else
        (let a = (if last_marker track < int n then last_marker track else int n - 1) in
         if a < 0 then Inl OutOfBounds
         else
           (case (if framenr (markers track ! nat a) \<le> fr
                  then marker_get_scan_up (markers track) fr (nat a)
                  else marker_get_scan_down (markers track) fr (nat a)) of
              Inl e \<Rightarrow> Inl e
            | Inr (i, exact) \<Rightarrow>
                Inr (Some i, if exact then track\<lparr>last_marker := int i\<rparr> else track))))"

text \<open>\<^verbatim>\<open>BKE_tracking_marker_get_exact\<close> reads \<^verbatim>\<open>marker->framenr\<close> without a null check.\<close>

definition BKE_tracking_marker_get_exact ::
    "MovieTrackingTrack \<Rightarrow> int \<Rightarrow> fault + (nat option \<times> MovieTrackingTrack)" where
  "BKE_tracking_marker_get_exact track fr =
     (case BKE_tracking_marker_get track fr of
        Inl e \<Rightarrow> Inl e
      | Inr (None, t1) \<Rightarrow> Inl NullDereference
      | Inr (Some i, t1) \<Rightarrow>
          if framenr (markers t1 ! i) \<noteq> fr then Inr (None, t1) else Inr (Some i, t1))"

text \<open>
  \<^verbatim>\<open>BKE_tracking_marker_insert\<close>, the search for the place of a new marker:
  \<^verbatim>\<open>while (a--) { if (track->markers[a].framenr < marker->framenr) break; }\<close>.
  The third argument is the value of \<^verbatim>\<open>a\<close> before the test; the result is \<^verbatim>\<open>a + 1\<close>
  after the loop.
\<close>

primrec marker_insert_position :: "MovieTrackingMarker list \<Rightarrow> int \<Rightarrow> nat \<Rightarrow> nat" where
  "marker_insert_position ms fr 0 = 0"
| "marker_insert_position ms fr (Suc a) =
     (if framenr (ms ! a) < fr then Suc a else marker_insert_position ms fr a)"

text \<open>
  \<^verbatim>\<open>BKE_tracking_marker_insert\<close> returns the address of the stored marker. An existing
  marker of the same frame is overwritten in place; otherwise the array grows by one, the
  tail is shifted and the cursor is set to the new marker.
\<close>

definition BKE_tracking_marker_insert ::
    "MovieTrackingTrack \<Rightarrow> MovieTrackingMarker \<Rightarrow> fault + (nat \<times> MovieTrackingTrack)" where
  "BKE_tracking_marker_insert track marker =
     (case (if markers track \<noteq> [] then BKE_tracking_marker_get_exact track (framenr marker)
            else Inr (None, track)) of
        Inl e \<Rightarrow> Inl e
      | Inr (Some i, t1) \<Rightarrow> Inr (i, t1\<lparr>markers := (markers t1)[i := marker]\<rparr>)
      | Inr (None, t1) \<Rightarrow>
          (let p = marker_insert_position (markers t1) (framenr marker) (length (markers t1)) in
           Inr (p, t1\<lparr>markers := take p (markers t1) @ marker # drop p (markers t1),
                        last_marker := int p\<rparr>)))"




text \<open>
  \<^verbatim>\<open>BKE_tracking_marker_ensure\<close> reads \<^verbatim>\<open>marker->framenr\<close> without a null check, too.
\<close>

definition BKE_tracking_marker_ensure ::
    "MovieTrackingTrack \<Rightarrow> int \<Rightarrow> fault + (nat option \<times> MovieTrackingTrack)" where
  "BKE_tracking_marker_ensure track fr =
     (case BKE_tracking_marker_get track fr of
        Inl e \<Rightarrow> Inl e
      | Inr (None, t1) \<Rightarrow> Inl NullDereference
      | Inr (Some i, t1) \<Rightarrow>
          if framenr (markers t1 ! i) \<noteq> fr then
            (case BKE_tracking_marker_insert t1 ((markers t1 ! i)\<lparr>framenr := fr\<rparr>) of
               Inl e \<Rightarrow> Inl e
             | Inr (p, t2) \<Rightarrow> BKE_tracking_marker_get t2 fr)
          else Inr (Some i, t1))"

definition BKE_tracking_track_has_marker_at_frame ::
    "MovieTrackingTrack \<Rightarrow> int \<Rightarrow> fault + (bool \<times> MovieTrackingTrack)" where
  "BKE_tracking_track_has_marker_at_frame track fr =
     (case BKE_tracking_marker_get_exact track fr of
        Inl e \<Rightarrow> Inl e
      | Inr (r, t1) \<Rightarrow> Inr (r \<noteq> None, t1))"

text \<open>
  \<^verbatim>\<open>tracking_marker_insert_disabled\<close>. With \<^verbatim>\<open>overwrite\<close> set, C's \<^verbatim>\<open>||\<close> does not
  evaluate the lookup.
\<close>

definition tracking_marker_insert_disabled ::
    "MovieTrackingTrack \<Rightarrow> MovieTrackingMarker \<Rightarrow> bool \<Rightarrow> bool \<Rightarrow> fault + MovieTrackingTrack" where
  "tracking_marker_insert_disabled track ref_marker place_before overwrite =
     (let marker_new = ref_marker\<lparr>flag := insert MARKER_DISABLED (flag ref_marker - {MARKER_TRACKED})\<rparr>;
          marker_new = marker_new\<lparr>framenr := (if place_before then framenr marker_new - 1
                                                else framenr marker_new + 1)\<rparr>
      in if overwrite then
           (case BKE_tracking_marker_insert track marker_new of
              Inl e \<Rightarrow> Inl e | Inr (p, t1) \<Rightarrow> Inr t1)
         else
           (case BKE_tracking_track_has_marker_at_frame track (framenr marker_new) of
              Inl e \<Rightarrow> Inl e
            | Inr (has, t1) \<Rightarrow>
                if \<not> has then
                  (case BKE_tracking_marker_insert t1 marker_new of
                     Inl e \<Rightarrow> Inl e | Inr (p, t2) \<Rightarrow> Inr t2)
                else Inr t1))"

text \<open>
  The actions of \<^verbatim>\<open>BKE_tracking_track_path_clear\<close>; their codes come from a header outside
  the sources at hand. \<open>TRACK_CLEAR_OTHER\<close> stands for every code that none of the three
  branches tests for.
\<close>

datatype clear_action = TRACK_CLEAR_UPTO | TRACK_CLEAR_REMAINED | TRACK_CLEAR_ALL | TRACK_CLEAR_OTHER

text \<open>
  The loop of the branch \<^verbatim>\<open>TRACK_CLEAR_REMAINED\<close>, which starts at \<^verbatim>\<open>a = 1\<close>: the result is the
  marker array as the loop leaves it.
\<close>

function path_clear_remained_scan :: "MovieTrackingMarker list \<Rightarrow> int \<Rightarrow> nat \<Rightarrow> MovieTrackingMarker list" where
  "path_clear_remained_scan ms ref_frame a =
     (if a < length ms then
        (if framenr (ms ! a) > ref_frame then take a ms
         else path_clear_remained_scan ms ref_frame (a + 1))
      else ms)"
  by pat_completeness auto
termination
  by (relation "measure (\<lambda>(ms, ref_frame, a). length ms - a)") auto

declare path_clear_remained_scan.simps [simp del]

text \<open>
  The loop of the branch \<^verbatim>\<open>TRACK_CLEAR_UPTO\<close>, which runs from \<^verbatim>\<open>a = markersnr - 1\<close> down
  to 0; the third argument is \<^verbatim>\<open>a + 1\<close>.
\<close>

primrec path_clear_upto_scan :: "MovieTrackingMarker list \<Rightarrow> int \<Rightarrow> nat \<Rightarrow> MovieTrackingMarker list" where
  "path_clear_upto_scan ms ref_frame 0 = ms"
| "path_clear_upto_scan ms ref_frame (Suc a) =
     (if framenr (ms ! a) \<le> ref_frame then drop a ms else path_clear_upto_scan ms ref_frame a)"

definition BKE_tracking_track_path_clear ::
    "MovieTrackingTrack \<Rightarrow> int \<Rightarrow> clear_action \<Rightarrow> fault + MovieTrackingTrack" where
  "BKE_tracking_track_path_clear track ref_frame action =
     (case action of
        TRACK_CLEAR_REMAINED \<Rightarrow>
          (let t1 = track\<lparr>markers := path_clear_remained_scan (markers track) ref_frame 1\<rparr> in
           if markers t1 \<noteq> [] then
             tracking_marker_insert_disabled t1 (markers t1 ! (length (markers t1) - 1)) False True
           else Inr t1)
      | TRACK_CLEAR_UPTO \<Rightarrow>
          (let t1 = track\<lparr>markers :=
                      path_clear_upto_scan (markers track) ref_frame (length (markers track))\<rparr> in
           if markers t1 \<noteq> [] then
             tracking_marker_insert_disabled t1 (markers t1 ! 0) True True
           else Inr t1)
      | TRACK_CLEAR_ALL \<Rightarrow>
          (case BKE_tracking_marker_get track ref_frame of
             Inl e \<Rightarrow> Inl e
           | Inr (None, t1) \<Rightarrow> Inl NullDereference
           | Inr (Some i, t1) \<Rightarrow>
               (let marker_new = markers t1 ! i in
                case BKE_tracking_marker_insert (t1\<lparr>markers := []\<rparr>) marker_new of
                  Inl e \<Rightarrow> Inl e
                | Inr (p, t2) \<Rightarrow>
                    (case tracking_marker_insert_disabled t2 marker_new True True of
                       Inl e \<Rightarrow> Inl e
                     | Inr t3 \<Rightarrow> tracking_marker_insert_disabled t3 marker_new False True)))
      | TRACK_CLEAR_OTHER \<Rightarrow> Inr track)"

text \<open>
  The state of a track that the operations rely on: the markers are strictly ascending by
  frame and the cursor is a (possibly stale) index, hence not negative.
\<close>

definition track_valid :: "MovieTrackingTrack \<Rightarrow> bool" where
  "track_valid track \<longleftrightarrow> sorted_wrt (<) (map framenr (markers track)) \<and> 0 \<le> last_marker track"

text \<open>Tracks for the examples: a marker at frame \<open>f\<close>, and a track from frames and a cursor.\<close>

definition marker_at_frame :: "int \<Rightarrow> MovieTrackingMarker" where
  "marker_at_frame f =
     \<lparr>framenr = f, pos = (0, 0), pattern_corners = ((0, 0), (0, 0), (0, 0), (0, 0)),
      search_min = (0, 0), search_max = (0, 0), flag = {}\<rparr>"

definition track_of_frames :: "int list \<Rightarrow> int \<Rightarrow> MovieTrackingTrack" where
  "track_of_frames fs cursor =
     \<lparr>markers = map marker_at_frame fs, last_marker = cursor, track_flag = {},
      bundle_pos = (0, 0, 0), error = 0\<rparr>"

text \<open>
  The marker that the lookup is specified to return, as an index: the first marker when the
  query precedes every frame, otherwise the last marker whose frame is at most the query
  (which is the marker of the queried frame when there is one).
\<close>

definition nearest_marker_index :: "MovieTrackingMarker list \<Rightarrow> int \<Rightarrow> nat \<Rightarrow> bool" where
  "nearest_marker_index ms fr i \<longleftrightarrow>
     i < length ms \<and>
     (if fr < framenr (ms ! 0) then i = 0
      else framenr (ms ! i) \<le> fr \<and> (\<forall>j<length ms. framenr (ms ! j) \<le> fr \<longrightarrow> j \<le> i))"

text \<open>The disabled copy of a marker that \<^verbatim>\<open>tracking_marker_insert_disabled\<close> stores at frame \<open>f\<close>.\<close>

definition disabled_marker :: "MovieTrackingMarker \<Rightarrow> int \<Rightarrow> MovieTrackingMarker" where
  "disabled_marker m f = m\<lparr>flag := insert MARKER_DISABLED (flag m - {MARKER_TRACKED}), framenr := f\<rparr>"




section \<open>Coverage of the dopesheet\<close>

















section \<open>Disabling colour channels of an image buffer\<close>
















section \<open>Retrieving a reconstruction from the solver\<close>

text \<open>
  The solver is a black box: what \<^verbatim>\<open>reconstruct_retrieve_libmv_tracks\<close> asks of a
  \<^verbatim>\<open>libmv_Reconstruction\<close> is the point and the error of a track number, and the camera
  matrix and the error of a frame (\<open>None\<close> when the call reports that there is none).
  The type \<open>'m\<close> is the type of 4x4 matrices.
\<close>

record 'm libmv_Reconstruction =
  libmv_reporojectionPointForTrack :: "nat \<Rightarrow> vec3 option"
  libmv_reporojectionErrorForTrack :: "nat \<Rightarrow> real"
  libmv_reporojectionCameraForImage :: "int \<Rightarrow> 'm option"
  libmv_reporojectionErrorForImage :: "int \<Rightarrow> real"

text \<open>
  The matrix routines belong to the math library, which is not part of the sources at hand;
  they are parameters: the unit matrix, the matrix that \<^verbatim>\<open>invert_m4_m4\<close> stores for its
  argument, the product that \<^verbatim>\<open>mul_m4_m4m4(R, A, B)\<close> stores for \<open>A\<close> and \<open>B\<close> (in this order),
  and the point that \<^verbatim>\<open>mul_v3_m4v3(r, M, v)\<close> stores for \<open>M\<close> and \<open>v\<close>.
\<close>

record 'm m4_routines =
  unit_m4 :: 'm
  invert_m4_m4 :: "'m \<Rightarrow> 'm"
  mul_m4_m4m4 :: "'m \<Rightarrow> 'm \<Rightarrow> 'm"
  mul_v3_m4v3 :: "'m \<Rightarrow> vec3 \<Rightarrow> vec3"

text \<open>
  \<^verbatim>\<open>MovieReconstructedCamera\<close>; its fields \<^verbatim>\<open>framenr\<close>, \<^verbatim>\<open>mat\<close> and \<^verbatim>\<open>error\<close> carry the
  prefix \<open>camera_\<close> here, since markers and tracks have fields of these names.
\<close>

record 'm MovieReconstructedCamera =
  camera_framenr :: int
  camera_mat :: 'm
  camera_error :: real

text \<open>
  The first loop, over the tracks and their numbers: the result is the list of tracks as
  the loop leaves them, and whether every track had a bundle.
\<close>

fun retrieve_track_bundles ::
    "'m libmv_Reconstruction \<Rightarrow> MovieTrackingTrack list \<Rightarrow> nat \<Rightarrow> MovieTrackingTrack list \<times> bool" where
  "retrieve_track_bundles libmv [] tracknr = ([], True)"
| "retrieve_track_bundles libmv (track # tracks) tracknr =
     (case retrieve_track_bundles libmv tracks (tracknr + 1) of (tracks', ok) \<Rightarrow>
        (case libmv_reporojectionPointForTrack libmv tracknr of
           Some p \<Rightarrow>
             (track\<lparr>bundle_pos := p, track_flag := insert TRACK_HAS_BUNDLE (track_flag track),
                    error := libmv_reporojectionErrorForTrack libmv tracknr\<rparr> # tracks', ok)
         | None \<Rightarrow>
             (track\<lparr>track_flag := track_flag track - {TRACK_HAS_BUNDLE}\<rparr> # tracks', False)))"

text \<open>
  The loop \<^verbatim>\<open>for (a = sfra; a <= efra; a++)\<close> over the frames that are left. The state is
  \<^verbatim>\<open>origin_set\<close> and \<^verbatim>\<open>imat\<close>; the result is the cameras appended to \<^verbatim>\<open>reconstructed\<close>, the
  final state, and whether every frame had a camera.
\<close>

fun retrieve_cameras ::
    "'m m4_routines \<Rightarrow> 'm libmv_Reconstruction \<Rightarrow> int list \<Rightarrow> bool \<Rightarrow> 'm \<Rightarrow>
     'm MovieReconstructedCamera list \<times> bool \<times> 'm \<times> bool" where
  "retrieve_cameras m4 libmv [] origin_set imat = ([], origin_set, imat, True)"
| "retrieve_cameras m4 libmv (a # frames) origin_set imat =
     (case libmv_reporojectionCameraForImage libmv a of
        Some mat \<Rightarrow>
          (if \<not> origin_set then
             (case retrieve_cameras m4 libmv frames True (invert_m4_m4 m4 mat) of
                (cams, origin_set', imat', ok) \<Rightarrow>
                  (\<lparr>camera_framenr = a, camera_mat = unit_m4 m4,
                     camera_error = libmv_reporojectionErrorForImage libmv a\<rparr> # cams,
                   origin_set', imat', ok))
           else
             (case retrieve_cameras m4 libmv frames origin_set imat of
                (cams, origin_set', imat', ok) \<Rightarrow>
                  (\<lparr>camera_framenr = a, camera_mat = mul_m4_m4m4 m4 imat mat,
                     camera_error = libmv_reporojectionErrorForImage libmv a\<rparr> # cams,
                   origin_set', imat', ok)))
      | None \<Rightarrow>
          (case retrieve_cameras m4 libmv frames origin_set imat of
             (cams, origin_set', imat', ok) \<Rightarrow> (cams, origin_set', imat', False)))"

text \<open>
  \<^verbatim>\<open>reconstruct_retrieve_libmv_tracks\<close> on the track list and the frame range of the
  context: the tracks and the camera array as the function leaves them, and its result.
\<close>

definition reconstruct_retrieve_libmv_tracks ::
    "'m m4_routines \<Rightarrow> 'm libmv_Reconstruction \<Rightarrow> int \<Rightarrow> int \<Rightarrow> MovieTrackingTrack list \<Rightarrow>
     MovieTrackingTrack list \<times> 'm MovieReconstructedCamera list \<times> bool" where
  "reconstruct_retrieve_libmv_tracks m4 libmv sfra efra tracks =
     (case retrieve_track_bundles libmv tracks 0 of (tracks1, ok1) \<Rightarrow>
        (case retrieve_cameras m4 libmv [sfra..efra] False (unit_m4 m4) of
           (cams, origin_set, imat, ok2) \<Rightarrow>
             ((if origin_set then
                 map (\<lambda>track. if TRACK_HAS_BUNDLE \<in> track_flag track
                               then track\<lparr>bundle_pos := mul_v3_m4v3 m4 imat (bundle_pos track)\<rparr>
                               else track) tracks1
               else tracks1),
              cams, ok1 \<and> ok2)))"

text \<open>
  A solver and matrix routines for the examples: matrices of one row and one column, that
  is real numbers; the camera of frame \<open>f\<close> from 5 to 20 is \<open>f\<close>, the point of track 0 is
  (1, 2, 3), and track 1 has no point.
\<close>

definition real_m4 :: "real m4_routines" where
  "real_m4 = \<lparr>unit_m4 = 1, invert_m4_m4 = inverse, mul_m4_m4m4 = (*),
              mul_v3_m4v3 = (\<lambda>m (x, y, z). (m * x, m * y, m * z))\<rparr>"

definition example_libmv :: "real libmv_Reconstruction" where
  "example_libmv =
     \<lparr>libmv_reporojectionPointForTrack = (\<lambda>k. if k = 0 then Some (1, 2, 3) else None),
      libmv_reporojectionErrorForTrack = (\<lambda>k. 0),
      libmv_reporojectionCameraForImage = (\<lambda>f. if 5 \<le> f \<and> f \<le> 20 then Some (real_of_int f) else None),
      libmv_reporojectionErrorForImage = (\<lambda>f. 0)\<rparr>"

section \<open>2D stabilization\<close>




















section \<open>Joining two tracks\<close>

text \<open>
  Modelled from the spec: \<^verbatim>\<open>interp_v2_v2v2\<close> belongs to the math library, which is not part
  of the sources at hand; it interpolates linearly between two points, from the first at the
  factor 0 to the second at the factor 1.
\<close>

definition interp_v2_v2v2 :: "vec2 \<Rightarrow> vec2 \<Rightarrow> real \<Rightarrow> vec2" where
  "interp_v2_v2v2 a b t = ((1 - t) * fst a + t * fst b, (1 - t) * snd a + t * snd b)"

text \<open>
  \<^verbatim>\<open>BKE_tracking_tracks_join\<close>, the loop that finds the length of the intersection: the
  number of times its body reaches \<^verbatim>\<open>len++\<close>, from the indices \<open>a\<close> and \<open>b\<close> and the frame.
\<close>

function join_intersection_length ::
    "MovieTrackingMarker list \<Rightarrow> MovieTrackingMarker list \<Rightarrow> nat \<Rightarrow> nat \<Rightarrow> int \<Rightarrow> nat" where
  "join_intersection_length src dst a b frame =
     (if a < length src \<and> b < length dst then
        (if MARKER_DISABLED \<in> flag (src ! a) \<or> MARKER_DISABLED \<in> flag (dst ! b) then 0
         else if framenr (src ! a) \<noteq> frame \<or> framenr (dst ! b) \<noteq> frame then 0
         else 1 + join_intersection_length src dst (a + 1) (b + 1) (frame + 1))
      else 0)"
  by pat_completeness auto
termination
  by (relation "measure (\<lambda>(src, dst, a, b, frame). length src - a)") auto

declare join_intersection_length.simps [simp del]

text \<open>
  The flag \<^verbatim>\<open>inverse\<close> (the argument \<open>inverted\<close> below), the factor of the \<open>j\<close>-th frame of an intersection of \<open>len\<close> frames,
  and the markers that the loop \<^verbatim>\<open>for (j = 0; j < len; j++)\<close> stores: copies of the markers
  of \<open>dst\<close> with interpolated positions.
\<close>

definition join_inverse :: "MovieTrackingMarker list \<Rightarrow> nat \<Rightarrow> int \<Rightarrow> bool" where
  "join_inverse dst b frame \<longleftrightarrow>
     b = 0 \<or> MARKER_DISABLED \<in> flag (dst ! (b - 1)) \<or> framenr (dst ! (b - 1)) \<noteq> frame - 1"

definition join_blend_factor :: "nat \<Rightarrow> bool \<Rightarrow> nat \<Rightarrow> real" where
  "join_blend_factor len inverted j =
     (let fac = (if len > 1 then 1 / real (len - 1) * real j else 1 / 2)
      in if inverted then 1 - fac else fac)"

definition join_blend ::
    "MovieTrackingMarker list \<Rightarrow> MovieTrackingMarker list \<Rightarrow> nat \<Rightarrow> nat \<Rightarrow> nat \<Rightarrow> bool \<Rightarrow>
     MovieTrackingMarker list" where
  "join_blend src dst a b len inverted =
     map (\<lambda>j. (dst ! (b + j))\<lparr>pos := interp_v2_v2v2 (pos (dst ! (b + j))) (pos (src ! (a + j)))
                                     (join_blend_factor len inverted j)\<rparr>) [0..<len]"

text \<open>
  The main loop \<^verbatim>\<open>while (a < src_track->markersnr || b < dst_track->markersnr)\<close>: the markers
  stored into the new array from the indices \<open>a\<close> and \<open>b\<close> on, in the order of the index \<^verbatim>\<open>i\<close>.
\<close>

function tracks_join_loop ::
    "MovieTrackingMarker list \<Rightarrow> MovieTrackingMarker list \<Rightarrow> nat \<Rightarrow> nat \<Rightarrow> MovieTrackingMarker list" where
  "tracks_join_loop src dst a b =
     (if a < length src \<or> b < length dst then
        (if b \<ge> length dst then src ! a # tracks_join_loop src dst (a + 1) b
         else if a \<ge> length src then dst ! b # tracks_join_loop src dst a (b + 1)
         else if framenr (src ! a) < framenr (dst ! b) then src ! a # tracks_join_loop src dst (a + 1) b
         else if framenr (src ! a) > framenr (dst ! b) then dst ! b # tracks_join_loop src dst a (b + 1)
         else if MARKER_DISABLED \<notin> flag (src ! a) then
           (if MARKER_DISABLED \<notin> flag (dst ! b) then
              join_blend src dst a b (join_intersection_length src dst a b (framenr (src ! a)))
                (join_inverse dst b (framenr (src ! a)))
              @ tracks_join_loop src dst
                  (a + join_intersection_length src dst a b (framenr (src ! a)))
                  (b + join_intersection_length src dst a b (framenr (src ! a)))
            else src ! a # tracks_join_loop src dst (a + 1) (b + 1))
         else dst ! b # tracks_join_loop src dst (a + 1) (b + 1))
      else [])"
  by pat_completeness auto
termination
proof (relation "measure (\<lambda>(src, dst, a, b). (length src - a) + (length dst - b))", goal_cases)
  case (6 src dst a b)
  then have "join_intersection_length src dst a b (framenr (src ! a)) \<ge> 1"
    by (subst join_intersection_length.simps) auto
  with 6 show ?case by auto
qed auto

declare tracks_join_loop.simps [simp del]

text \<open>
  \<^verbatim>\<open>BKE_tracking_tracks_join\<close> replaces the markers of the destination track. (It also tags
  the dopesheet for an update, which is outside of the tracks.)
\<close>

definition BKE_tracking_tracks_join :: "MovieTrackingTrack \<Rightarrow> MovieTrackingTrack \<Rightarrow> MovieTrackingTrack" where
  "BKE_tracking_tracks_join dst_track src_track =
     dst_track\<lparr>markers := tracks_join_loop (markers src_track) (markers dst_track) 0 0\<rparr>"

text \<open>
  The words of the specification for the joined track. The marker of a track at a frame;
  whether both tracks have an enabled marker at a frame; the number of frames of that kind
  directly before and directly after a frame (the bound \<open>n\<close> is the greatest number looked
  for); and the marker of the joined track at a frame: the marker of the only track that has
  one, the enabled one when one of the two is disabled (the one of the destination when
  both are), and otherwise the marker of the destination at the position interpolated
  between the two, at the factor \<open>j / (len - 1)\<close> for the \<open>j\<close>-th of the \<open>len\<close> frames of the run
  (1/2 for a single frame), reversed when the destination has no enabled marker at
  the frame before the run.
\<close>

definition marker_at :: "MovieTrackingMarker list \<Rightarrow> int \<Rightarrow> MovieTrackingMarker option" where
  "marker_at ms f = find (\<lambda>m. framenr m = f) ms"

definition enabled_at :: "MovieTrackingMarker list \<Rightarrow> int \<Rightarrow> bool" where
  "enabled_at ms f \<longleftrightarrow> (case marker_at ms f of None \<Rightarrow> False | Some m \<Rightarrow> MARKER_DISABLED \<notin> flag m)"

primrec run_before :: "MovieTrackingMarker list \<Rightarrow> MovieTrackingMarker list \<Rightarrow> int \<Rightarrow> nat \<Rightarrow> nat" where
  "run_before src dst f 0 = 0"
| "run_before src dst f (Suc n) =
     (if enabled_at src (f - 1) \<and> enabled_at dst (f - 1) then 1 + run_before src dst (f - 1) n else 0)"

primrec run_after :: "MovieTrackingMarker list \<Rightarrow> MovieTrackingMarker list \<Rightarrow> int \<Rightarrow> nat \<Rightarrow> nat" where
  "run_after src dst f 0 = 0"
| "run_after src dst f (Suc n) =
     (if enabled_at src (f + 1) \<and> enabled_at dst (f + 1) then 1 + run_after src dst (f + 1) n else 0)"

definition joined_factor :: "MovieTrackingMarker list \<Rightarrow> MovieTrackingMarker list \<Rightarrow> int \<Rightarrow> real" where
  "joined_factor src dst f =
     (let j = run_before src dst f (length dst);
          len = j + 1 + run_after src dst f (length dst);
          fac = (if len = 1 then 1 / 2 else real j / real (len - 1))
      in if enabled_at dst (f - int j - 1) then fac else 1 - fac)"

definition joined_marker :: "MovieTrackingMarker list \<Rightarrow> MovieTrackingMarker list \<Rightarrow> int \<Rightarrow> MovieTrackingMarker option" where
  "joined_marker src dst f =
     (case (marker_at src f, marker_at dst f) of
        (None, None) \<Rightarrow> None
      | (Some s, None) \<Rightarrow> Some s
      | (None, Some d) \<Rightarrow> Some d
      | (Some s, Some d) \<Rightarrow>
          if MARKER_DISABLED \<in> flag s then Some d
          else if MARKER_DISABLED \<in> flag d then Some s
          else Some (d\<lparr>pos := interp_v2_v2v2 (pos d) (pos s) (joined_factor src dst f)\<rparr>))"

text \<open>
  The tracks of the scenario: the destination enabled at the frames 1 to 5 at (0, 0)
  (with the marker of frame 2 disabled in the second variant), the source enabled at the
  frames 3 to 7 at (1, 1).
\<close>

definition join_marker :: "int \<Rightarrow> vec2 \<Rightarrow> bool \<Rightarrow> MovieTrackingMarker" where
  "join_marker f p disabled =
     (marker_at_frame f)\<lparr>pos := p, flag := (if disabled then {MARKER_DISABLED} else {})\<rparr>"

definition join_example_dst :: "bool \<Rightarrow> MovieTrackingMarker list" where
  "join_example_dst disabled2 =
     [join_marker 1 (0, 0) False, join_marker 2 (0, 0) disabled2, join_marker 3 (0, 0) False,
      join_marker 4 (0, 0) False, join_marker 5 (0, 0) False]"

definition join_example_src :: "MovieTrackingMarker list" where
  "join_example_src =
     [join_marker 3 (1, 1) False, join_marker 4 (1, 1) False, join_marker 5 (1, 1) False,
      join_marker 6 (1, 1) False, join_marker 7 (1, 1) False]"

text \<open>
  The invariant of the main loop at the indices \<open>a\<close> and \<open>b\<close>: the marker before each index lies
  before the marker at the other index, and the indices do not stand inside of a run of
  frames at which both tracks are enabled.
\<close>

definition join_inv :: "MovieTrackingMarker list \<Rightarrow> MovieTrackingMarker list \<Rightarrow> nat \<Rightarrow> nat \<Rightarrow> bool" where
  "join_inv src dst a b \<longleftrightarrow>
     a \<le> length src \<and> b \<le> length dst
     \<and> (0 < a \<and> b < length dst \<longrightarrow> framenr (src ! (a - 1)) < framenr (dst ! b))
     \<and> (0 < b \<and> a < length src \<longrightarrow> framenr (dst ! (b - 1)) < framenr (src ! a))
     \<and> \<not> (0 < a \<and> 0 < b \<and> a < length src \<and> b < length dst
          \<and> framenr (src ! a) = framenr (dst ! b)
          \<and> framenr (src ! (a - 1)) = framenr (src ! a) - 1
          \<and> framenr (dst ! (b - 1)) = framenr (dst ! b) - 1
          \<and> MARKER_DISABLED \<notin> flag (src ! (a - 1)) \<and> MARKER_DISABLED \<notin> flag (dst ! (b - 1))
          \<and> MARKER_DISABLED \<notin> flag (src ! a) \<and> MARKER_DISABLED \<notin> flag (dst ! b))"

text \<open>The frames that the loop has still to write at the indices \<open>a\<close> and \<open>b\<close>.\<close>

definition join_pending :: "MovieTrackingMarker list \<Rightarrow> MovieTrackingMarker list \<Rightarrow> nat \<Rightarrow> nat \<Rightarrow> int \<Rightarrow> bool" where
  "join_pending src dst a b f \<longleftrightarrow>
     (\<exists>i. a \<le> i \<and> i < length src \<and> framenr (src ! i) = f)
     \<or> (\<exists>i. b \<le> i \<and> i < length dst \<and> framenr (dst ! i) = f)"

definition join_example_track :: "MovieTrackingMarker list \<Rightarrow> MovieTrackingTrack" where
  "join_example_track ms =
     \<lparr>markers = ms, last_marker = 0, track_flag = {}, bundle_pos = (0, 0, 0), error = 0\<rparr>"

section \<open>Clamping the search area to the pattern\<close>





section \<open>Lookup in the marker store\<close>

lemma frames_strict_mono:
  "sorted_wrt (<) (map framenr ms) \<Longrightarrow> i < j \<Longrightarrow> j < length ms \<Longrightarrow> framenr (ms ! i) < framenr (ms ! j)"
  by (auto simp: sorted_wrt_iff_nth_less)

lemma frames_mono:
  "sorted_wrt (<) (map framenr ms) \<Longrightarrow> i \<le> j \<Longrightarrow> j < length ms \<Longrightarrow> framenr (ms ! i) \<le> framenr (ms ! j)"
  using frames_strict_mono [of ms i j] by (cases "i = j") auto

lemma frames_le_imp_index_le:
  "sorted_wrt (<) (map framenr ms) \<Longrightarrow> i < length ms \<Longrightarrow> j < length ms \<Longrightarrow>
   framenr (ms ! j) \<le> framenr (ms ! i) \<Longrightarrow> j \<le> i"
  using frames_strict_mono [of ms i j] by (cases "j \<le> i") auto

lemma frames_inj:
  "sorted_wrt (<) (map framenr ms) \<Longrightarrow> i < length ms \<Longrightarrow> j < length ms \<Longrightarrow>
   framenr (ms ! j) = framenr (ms ! i) \<Longrightarrow> j = i"
  using frames_le_imp_index_le [of ms i j] frames_le_imp_index_le [of ms j i] by simp

lemma nearest_marker_index_unique:
  "sorted_wrt (<) (map framenr ms) \<Longrightarrow> nearest_marker_index ms fr i \<Longrightarrow> nearest_marker_index ms fr k \<Longrightarrow> i = k"
  unfolding nearest_marker_index_def
  by (auto split: if_splits simp: le_antisym)

lemma nearest_marker_index_exact:
  assumes "sorted_wrt (<) (map framenr ms)" "nearest_marker_index ms fr i" "fr \<in> framenr ` set ms"
  shows "framenr (ms ! i) = fr"
proof -
  from assms(3) obtain k where k: "k < length ms" "framenr (ms ! k) = fr"
    by (auto simp: in_set_conv_nth)
  have "\<not> fr < framenr (ms ! 0)"
    using frames_mono [OF assms(1), of 0 k] k by simp
  with assms(2) have i: "i < length ms" "framenr (ms ! i) \<le> fr" "k \<le> i"
    using k by (auto simp: nearest_marker_index_def)
  have "framenr (ms ! k) \<le> framenr (ms ! i)"
    using frames_mono [OF assms(1) i(3) i(1)] .
  with i k show ?thesis by simp
qed

lemma marker_get_scan_up_nearest:
  "sorted_wrt (<) (map framenr ms) \<Longrightarrow> a < length ms \<Longrightarrow> framenr (ms ! a) \<le> fr \<Longrightarrow>
   \<exists>i. marker_get_scan_up ms fr a = Inr (i, framenr (ms ! i) = fr) \<and> i < length ms \<and>
       framenr (ms ! i) \<le> fr \<and> (\<forall>j<length ms. framenr (ms ! j) \<le> fr \<longrightarrow> j \<le> i)"
proof (induction ms fr a rule: marker_get_scan_up.induct)
  case (1 ms fr a)
  show ?case
  proof (cases "framenr (ms ! a) = fr")
    case True
    have "\<forall>j<length ms. framenr (ms ! j) \<le> fr \<longrightarrow> j \<le> a"
      using frames_le_imp_index_le [OF "1.prems"(1) "1.prems"(2)] True by simp
    then show ?thesis
      using "1.prems" True by (subst marker_get_scan_up.simps) auto
  next
    case False
    show ?thesis
    proof (cases "Suc a < length ms \<and> framenr (ms ! Suc a) \<le> fr")
      case True
      then obtain i where "marker_get_scan_up ms fr (a + 1) = Inr (i, framenr (ms ! i) = fr)"
        "i < length ms" "framenr (ms ! i) \<le> fr" "\<forall>j<length ms. framenr (ms ! j) \<le> fr \<longrightarrow> j \<le> i"
        using "1.IH" "1.prems" False by auto
      then show ?thesis
        using "1.prems" False by (subst marker_get_scan_up.simps) auto
    next
      case stop: False
      have up: "marker_get_scan_up ms fr (a + 1) = Inr (a, False)"
        using stop by (subst marker_get_scan_up.simps) auto
      have "\<forall>j<length ms. framenr (ms ! j) \<le> fr \<longrightarrow> j \<le> a"
      proof (intro allI impI)
        fix j assume j: "j < length ms" "framenr (ms ! j) \<le> fr"
        show "j \<le> a"
        proof (rule ccontr)
          assume "\<not> j \<le> a"
          then have "Suc a \<le> j" by simp
          then have "framenr (ms ! Suc a) \<le> framenr (ms ! j)"
            using frames_mono [OF "1.prems"(1) _ j(1)] by simp
          with stop j \<open>Suc a \<le> j\<close> show False by auto
        qed
      qed
      then show ?thesis
        using "1.prems" False up by (subst marker_get_scan_up.simps) auto
    qed
  qed
qed

lemma marker_get_scan_down_nearest:
  "a < length ms \<Longrightarrow> framenr (ms ! 0) \<le> fr \<Longrightarrow>
   (\<forall>j<length ms. a < j \<longrightarrow> fr < framenr (ms ! j)) \<Longrightarrow>
   \<exists>i. marker_get_scan_down ms fr a = Inr (i, framenr (ms ! i) = fr) \<and> i < length ms \<and>
       framenr (ms ! i) \<le> fr \<and> (\<forall>j<length ms. framenr (ms ! j) \<le> fr \<longrightarrow> j \<le> i)"
proof (induction a)
  case 0
  then show ?case by (auto simp: not_less [symmetric])
next
  case (Suc a)
  show ?case
  proof (cases "framenr (ms ! Suc a) \<le> fr")
    case True
    have "\<forall>j<length ms. framenr (ms ! j) \<le> fr \<longrightarrow> j \<le> Suc a"
      using Suc.prems(3) by (auto simp: not_less [symmetric])
    then show ?thesis using True Suc.prems by auto
  next
    case False
    have "\<forall>j<length ms. a < j \<longrightarrow> fr < framenr (ms ! j)"
    proof (intro allI impI)
      fix j assume j: "j < length ms" "a < j"
      show "fr < framenr (ms ! j)"
      proof (cases "j = Suc a")
        case True
        then show ?thesis using False by simp
      next
        case False
        then have "Suc a < j" using j by simp
        then show ?thesis using Suc.prems(3) j by simp
      qed
    qed
    then show ?thesis using Suc.IH Suc.prems False by auto
  qed
qed

lemma marker_get_nearest_index:
  assumes "track_valid track" "markers track \<noteq> []"
  shows "\<exists>i. nearest_marker_index (markers track) fr i \<and>
     BKE_tracking_marker_get track fr =
       Inr (Some i, if framenr (markers track ! i) = fr then track\<lparr>last_marker := int i\<rparr> else track)"
proof -
  let ?ms = "markers track"
  have sorted: "sorted_wrt (<) (map framenr ?ms)" and cur: "0 \<le> last_marker track"
    using assms(1) by (simp_all add: track_valid_def)
  have n: "0 < length ?ms" using assms(2) by simp
  show ?thesis
  proof (cases "fr < framenr (?ms ! 0)")
    case True
    then show ?thesis using n
      by (intro exI [of _ 0]) (simp add: nearest_marker_index_def BKE_tracking_marker_get_def)
  next
    case False
    define a where "a = nat (if last_marker track < int (length ?ms) then last_marker track else int (length ?ms) - 1)"
    have "nat (int (length ?ms) - 1) < length ?ms" using n by linarith
    then have a: "a < length ?ms" using n cur by (auto simp: a_def)
    have a_int: "(if last_marker track < int (length ?ms) then last_marker track else int (length ?ms) - 1) = int a"
      using n cur by (auto simp: a_def)
    have "\<exists>i. (if framenr (?ms ! a) \<le> fr then marker_get_scan_up ?ms fr a
               else marker_get_scan_down ?ms fr a) = Inr (i, framenr (?ms ! i) = fr) \<and> i < length ?ms \<and>
       framenr (?ms ! i) \<le> fr \<and> (\<forall>j<length ?ms. framenr (?ms ! j) \<le> fr \<longrightarrow> j \<le> i)"
    proof (cases "framenr (?ms ! a) \<le> fr")
      case True
      then show ?thesis using marker_get_scan_up_nearest [OF sorted a True] by simp
    next
      case down: False
      have "\<forall>j<length ?ms. a < j \<longrightarrow> fr < framenr (?ms ! j)"
        using frames_strict_mono [OF sorted] down by force
      then show ?thesis
        using marker_get_scan_down_nearest [OF a, of fr] False down by simp
    qed
    then obtain i where i: "(if framenr (?ms ! a) \<le> fr then marker_get_scan_up ?ms fr a
               else marker_get_scan_down ?ms fr a) = Inr (i, framenr (?ms ! i) = fr)"
       "i < length ?ms" "framenr (?ms ! i) \<le> fr" "\<forall>j<length ?ms. framenr (?ms ! j) \<le> fr \<longrightarrow> j \<le> i"
      by blast
    have "BKE_tracking_marker_get track fr =
       Inr (Some i, if framenr (?ms ! i) = fr then track\<lparr>last_marker := int i\<rparr> else track)"
      using False n i(1) unfolding BKE_tracking_marker_get_def Let_def a_int
      by (auto split: if_splits)
    then show ?thesis
      using i False by (intro exI [of _ i]) (simp add: nearest_marker_index_def)
  qed
qed

lemma marker_get_exact_present:
  assumes "track_valid track" "i < length (markers track)" "framenr (markers track ! i) = fr"
  shows "BKE_tracking_marker_get_exact track fr = Inr (Some i, track\<lparr>last_marker := int i\<rparr>)"
proof -
  have ne: "markers track \<noteq> []" using assms(2) by auto
  have sorted: "sorted_wrt (<) (map framenr (markers track))"
    using assms(1) by (simp add: track_valid_def)
  obtain k where k: "nearest_marker_index (markers track) fr k"
    "BKE_tracking_marker_get track fr =
       Inr (Some k, if framenr (markers track ! k) = fr then track\<lparr>last_marker := int k\<rparr> else track)"
    using marker_get_nearest_index [OF assms(1) ne, of fr] by blast
  have "fr \<in> framenr ` set (markers track)"
    by (metis assms(2,3) imageI nth_mem)
  then have kf: "framenr (markers track ! k) = fr"
    using nearest_marker_index_exact [OF sorted k(1)] by simp
  have "k < length (markers track)" using k(1) by (simp add: nearest_marker_index_def)
  then have "k = i" using frames_inj [OF sorted assms(2), of k] kf assms(3) by simp
  then show ?thesis using k(2) kf by (simp add: BKE_tracking_marker_get_exact_def)
qed

lemma marker_get_exact_absent:
  assumes "track_valid track" "markers track \<noteq> []" "fr \<notin> framenr ` set (markers track)"
  shows "BKE_tracking_marker_get_exact track fr = Inr (None, track)"
proof -
  obtain k where k: "nearest_marker_index (markers track) fr k"
    "BKE_tracking_marker_get track fr =
       Inr (Some k, if framenr (markers track ! k) = fr then track\<lparr>last_marker := int k\<rparr> else track)"
    using marker_get_nearest_index [OF assms(1,2), of fr] by blast
  have "k < length (markers track)" using k(1) by (simp add: nearest_marker_index_def)
  then have "framenr (markers track ! k) \<noteq> fr" using assms(3) by (metis imageI nth_mem)
  then show ?thesis using k(2) by (simp add: BKE_tracking_marker_get_exact_def)
qed

lemma marker_insert_position_le: "marker_insert_position ms fr k \<le> k"
  by (induction k) auto

lemma marker_insert_position_after:
  "marker_insert_position ms fr k \<le> j \<Longrightarrow> j < k \<Longrightarrow> \<not> framenr (ms ! j) < fr"
  by (induction k) (auto simp: less_Suc_eq split: if_splits)

lemma marker_insert_position_before:
  "0 < marker_insert_position ms fr k \<Longrightarrow> framenr (ms ! (marker_insert_position ms fr k - 1)) < fr"
  by (induction k) (auto split: if_splits)

lemma marker_insert_position_last:
  "0 < k \<Longrightarrow> framenr (ms ! (k - 1)) < fr \<Longrightarrow> marker_insert_position ms fr k = k"
  by (cases k) auto

lemma marker_insert_position_first:
  "\<forall>j<k. \<not> framenr (ms ! j) < fr \<Longrightarrow> marker_insert_position ms fr k = 0"
  by (induction k) auto

lemma sorted_marker_insert:
  assumes sorted: "sorted_wrt (<) (map framenr ms)" and absent: "framenr m \<notin> framenr ` set ms"
    and p: "p = marker_insert_position ms (framenr m) (length ms)"
  shows "sorted_wrt (<) (map framenr (take p ms @ m # drop p ms))"
proof -
  have ple: "p \<le> length ms" using p marker_insert_position_le by simp
  have before: "framenr x < framenr m" if "x \<in> set (take p ms)" for x
  proof -
    from that obtain j where j: "j < p" "x = ms ! j"
      using ple by (auto simp: in_set_conv_nth)
    then have "0 < p" by simp
    then have "framenr (ms ! (p - 1)) < framenr m"
      using marker_insert_position_before [of ms "framenr m" "length ms"] p by simp
    moreover have "framenr (ms ! j) \<le> framenr (ms ! (p - 1))"
      using frames_mono [OF sorted, of j "p - 1"] j ple by simp
    ultimately show ?thesis using j by simp
  qed
  have after: "framenr m < framenr y" if "y \<in> set (drop p ms)" for y
  proof -
    from that obtain j where j: "p \<le> j" "j < length ms" "y = ms ! j"
      by (auto simp: in_set_conv_nth) (metis le_add1 less_diff_conv add.commute)
    then have "\<not> framenr (ms ! j) < framenr m"
      using marker_insert_position_after [of ms "framenr m" "length ms" j] p by simp
    moreover have "framenr (ms ! j) \<noteq> framenr m"
      using absent j by (metis imageI nth_mem)
    ultimately show ?thesis using j by simp
  qed
  have "sorted_wrt (<) (map framenr (take p ms) @ map framenr (drop p ms))"
    using sorted by (simp flip: map_append)
  then show ?thesis
    using before after by (auto simp: sorted_wrt_append)
qed

lemma marker_insert_new:
  assumes "track_valid track" "framenr marker \<notin> framenr ` set (markers track)"
    and "p = marker_insert_position (markers track) (framenr marker) (length (markers track))"
  shows "BKE_tracking_marker_insert track marker =
           Inr (p, track\<lparr>markers := take p (markers track) @ marker # drop p (markers track),
                         last_marker := int p\<rparr>)"
proof (cases "markers track = []")
  case True
  then show ?thesis using assms(3) by (simp add: BKE_tracking_marker_insert_def Let_def)
next
  case False
  then show ?thesis
    using marker_get_exact_absent [OF assms(1) False assms(2)] assms(3)
    by (simp add: BKE_tracking_marker_insert_def Let_def)
qed



text \<open>
  C1. For a track with at least one marker (strictly ascending frames, a cursor that is not
  negative) and every queried frame, \<^verbatim>\<open>BKE_tracking_marker_get\<close> does not return null: it
  returns the marker of the queried frame when there is one, otherwise the last marker whose
  frame is below the query, and the first marker when the query precedes all frames. The
  marker returned is the same for every value of the cursor, and the cursor is written only
  on an exact match.
\<close>

theorem marker_get_returns_nearest:
  assumes "track_valid track" "markers track \<noteq> []"
  shows "\<exists>i. nearest_marker_index (markers track) fr i
     \<and> BKE_tracking_marker_get track fr =
         Inr (Some i, if framenr (markers track ! i) = fr then track\<lparr>last_marker := int i\<rparr> else track)
     \<and> (fr \<in> framenr ` set (markers track) \<longrightarrow> framenr (markers track ! i) = fr)
     \<and> (\<forall>cursor\<ge>0. \<exists>t'. BKE_tracking_marker_get (track\<lparr>last_marker := cursor\<rparr>) fr = Inr (Some i, t'))"
proof -
  have sorted: "sorted_wrt (<) (map framenr (markers track))"
    using assms(1) by (simp add: track_valid_def)
  obtain i where i: "nearest_marker_index (markers track) fr i"
    "BKE_tracking_marker_get track fr =
       Inr (Some i, if framenr (markers track ! i) = fr then track\<lparr>last_marker := int i\<rparr> else track)"
    using marker_get_nearest_index [OF assms, of fr] by blast
  have exact: "fr \<in> framenr ` set (markers track) \<longrightarrow> framenr (markers track ! i) = fr"
    using nearest_marker_index_exact [OF sorted i(1)] by simp
  have "\<exists>t'. BKE_tracking_marker_get (track\<lparr>last_marker := cursor\<rparr>) fr = Inr (Some i, t')"
    if "0 \<le> cursor" for cursor
  proof -
    let ?t = "track\<lparr>last_marker := cursor\<rparr>"
    have v: "track_valid ?t" and ne: "markers ?t \<noteq> []"
      using assms that by (simp_all add: track_valid_def)
    obtain k where k: "nearest_marker_index (markers ?t) fr k"
      "BKE_tracking_marker_get ?t fr =
         Inr (Some k, if framenr (markers ?t ! k) = fr then ?t\<lparr>last_marker := int k\<rparr> else ?t)"
      using marker_get_nearest_index [OF v ne, of fr] by blast
    have "k = i"
      using nearest_marker_index_unique [OF sorted _ i(1), of k] k(1) by simp
    then show ?thesis using k(2) by blast
  qed
  then show ?thesis using i exact by blast
qed

lemma track_of_frames_5_10_20_valid:
  "track_valid (track_of_frames [5, 10, 20] c) \<longleftrightarrow> 0 \<le> c"
  by (simp add: track_valid_def track_of_frames_def marker_at_frame_def)

text \<open>
  The scenario of C1: with markers at frames 5, 10 and 20, the queries 7, 10, 25 and 3 give
  the markers at 5, 10, 20 and 5.
\<close>

theorem marker_get_returns_nearest_witness:
  "track_valid (track_of_frames [5, 10, 20] 2) \<and> markers (track_of_frames [5, 10, 20] 2) \<noteq> []
   \<and> BKE_tracking_marker_get (track_of_frames [5, 10, 20] 2) 7 = Inr (Some 0, track_of_frames [5, 10, 20] 2)
   \<and> BKE_tracking_marker_get (track_of_frames [5, 10, 20] 2) 10 = Inr (Some 1, track_of_frames [5, 10, 20] 1)
   \<and> BKE_tracking_marker_get (track_of_frames [5, 10, 20] 2) 25 = Inr (Some 2, track_of_frames [5, 10, 20] 2)
   \<and> BKE_tracking_marker_get (track_of_frames [5, 10, 20] 2) 3 = Inr (Some 0, track_of_frames [5, 10, 20] 2)"
proof -
  let ?t = "track_of_frames [5, 10, 20] 2"
  have v: "track_valid ?t" by (simp add: track_of_frames_5_10_20_valid)
  have ne: "markers ?t \<noteq> []" by (simp add: track_of_frames_def)
  have ms: "markers ?t = [marker_at_frame 5, marker_at_frame 10, marker_at_frame 20]"
    by (simp add: track_of_frames_def)
  have fr: "framenr (marker_at_frame f) = f" for f by (simp add: marker_at_frame_def)
  have upd: "?t\<lparr>last_marker := 1\<rparr> = track_of_frames [5, 10, 20] 1"
    by (simp add: track_of_frames_def)
  let ?ms = "[marker_at_frame 5, marker_at_frame 10, marker_at_frame 20]"
  have idx: "nearest_marker_index ?ms 7 i \<longleftrightarrow> i = 0"
    "nearest_marker_index ?ms 10 i \<longleftrightarrow> i = 1"
    "nearest_marker_index ?ms 25 i \<longleftrightarrow> i = 2"
    "nearest_marker_index ?ms 3 i \<longleftrightarrow> i = 0" for i
    unfolding nearest_marker_index_def
    by (auto simp: fr nth_Cons' less_Suc_eq numeral_3_eq_3 all_conj_distrib)
  have "BKE_tracking_marker_get ?t 7 = Inr (Some 0, ?t)"
    using marker_get_returns_nearest [OF v ne, of 7] by (auto simp: idx ms fr)
  moreover have "BKE_tracking_marker_get ?t 10 = Inr (Some 1, track_of_frames [5, 10, 20] 1)"
    using marker_get_returns_nearest [OF v ne, of 10] by (auto simp: idx ms fr upd)
  moreover have "BKE_tracking_marker_get ?t 25 = Inr (Some 2, ?t)"
    using marker_get_returns_nearest [OF v ne, of 25] by (auto simp: idx ms fr)
  moreover have "BKE_tracking_marker_get ?t 3 = Inr (Some 0, ?t)"
    using marker_get_returns_nearest [OF v ne, of 3] by (auto simp: idx ms fr)
  ultimately show ?thesis using v ne by simp
qed

lemma marker_get_present:
  assumes "track_valid track" "i < length (markers track)" "framenr (markers track ! i) = fr"
  shows "BKE_tracking_marker_get track fr = Inr (Some i, track\<lparr>last_marker := int i\<rparr>)"
proof -
  have ne: "markers track \<noteq> []" using assms(2) by auto
  have sorted: "sorted_wrt (<) (map framenr (markers track))"
    using assms(1) by (simp add: track_valid_def)
  obtain k where k: "nearest_marker_index (markers track) fr k"
    "BKE_tracking_marker_get track fr =
       Inr (Some k, if framenr (markers track ! k) = fr then track\<lparr>last_marker := int k\<rparr> else track)"
    using marker_get_nearest_index [OF assms(1) ne, of fr] by blast
  have "fr \<in> framenr ` set (markers track)"
    by (metis assms(2,3) imageI nth_mem)
  then have kf: "framenr (markers track ! k) = fr"
    using nearest_marker_index_exact [OF sorted k(1)] by simp
  have "k < length (markers track)" using k(1) by (simp add: nearest_marker_index_def)
  then have "k = i" using frames_inj [OF sorted assms(2), of k] kf assms(3) by simp
  then show ?thesis using k(2) kf by simp
qed

lemma marker_get_absent:
  assumes "track_valid track" "markers track \<noteq> []" "fr \<notin> framenr ` set (markers track)"
  shows "\<exists>i. nearest_marker_index (markers track) fr i \<and> framenr (markers track ! i) \<noteq> fr \<and>
           BKE_tracking_marker_get track fr = Inr (Some i, track)"
proof -
  obtain k where k: "nearest_marker_index (markers track) fr k"
    "BKE_tracking_marker_get track fr =
       Inr (Some k, if framenr (markers track ! k) = fr then track\<lparr>last_marker := int k\<rparr> else track)"
    using marker_get_nearest_index [OF assms(1,2), of fr] by blast
  have "k < length (markers track)" using k(1) by (simp add: nearest_marker_index_def)
  then have "framenr (markers track ! k) \<noteq> fr" using assms(3) by (metis imageI nth_mem)
  then show ?thesis using k by auto
qed

lemma marker_ensure_present:
  assumes "track_valid track" "i < length (markers track)" "framenr (markers track ! i) = fr"
  shows "BKE_tracking_marker_ensure track fr = Inr (Some i, track\<lparr>last_marker := int i\<rparr>)"
  using marker_get_present [OF assms] assms(3) by (simp add: BKE_tracking_marker_ensure_def)

lemma marker_ensure_absent:
  assumes valid: "track_valid track" and ne: "markers track \<noteq> []"
    and absent: "fr \<notin> framenr ` set (markers track)"
    and near: "nearest_marker_index (markers track) fr i"
    and p: "p = marker_insert_position (markers track) fr (length (markers track))"
  shows "BKE_tracking_marker_ensure track fr =
           Inr (Some p, track\<lparr>markers := take p (markers track) @ (markers track ! i)\<lparr>framenr := fr\<rparr>
                                   # drop p (markers track),
                              last_marker := int p\<rparr>)"
    and "track_valid (track\<lparr>markers := take p (markers track) @ (markers track ! i)\<lparr>framenr := fr\<rparr>
                                   # drop p (markers track),
                              last_marker := int p\<rparr>)"
proof -
  let ?ms = "markers track"
  let ?m = "(?ms ! i)\<lparr>framenr := fr\<rparr>"
  let ?t2 = "track\<lparr>markers := take p ?ms @ ?m # drop p ?ms, last_marker := int p\<rparr>"
  have sorted: "sorted_wrt (<) (map framenr ?ms)" using valid by (simp add: track_valid_def)
  obtain k where k: "nearest_marker_index ?ms fr k" "framenr (?ms ! k) \<noteq> fr"
    "BKE_tracking_marker_get track fr = Inr (Some k, track)"
    using marker_get_absent [OF valid ne absent] by blast
  have ki: "k = i" using nearest_marker_index_unique [OF sorted k(1) near] .
  have fm: "framenr ?m = fr" by simp
  have ins: "BKE_tracking_marker_insert track ?m = Inr (p, ?t2)"
    using marker_insert_new [OF valid, of ?m p] absent p by simp
  have ple: "p \<le> length ?ms" using p marker_insert_position_le by simp
  show v2: "track_valid ?t2"
    using sorted_marker_insert [OF sorted, of ?m p] absent p by (simp add: track_valid_def)
  have at_p: "p < length (markers ?t2)" "framenr (markers ?t2 ! p) = fr"
    using ple by (simp_all add: nth_append)
  have "BKE_tracking_marker_get ?t2 fr = Inr (Some p, ?t2\<lparr>last_marker := int p\<rparr>)"
    by (rule marker_get_present [OF v2 at_p])
  then have "BKE_tracking_marker_get ?t2 fr = Inr (Some p, ?t2)" by simp
  then show "BKE_tracking_marker_ensure track fr = Inr (Some p, ?t2)"
    using k(2,3) ins unfolding ki by (simp add: BKE_tracking_marker_ensure_def)
qed

text \<open>
  C10. \<^verbatim>\<open>BKE_tracking_marker_get_exact\<close> and \<^verbatim>\<open>BKE_tracking_marker_ensure\<close> dereference
  the result of \<^verbatim>\<open>BKE_tracking_marker_get\<close> unconditionally: on a track without markers both
  dereference null. On a track with at least one marker the null dereference is not reached;
  \<^verbatim>\<open>get_exact\<close> returns the marker of exactly the queried frame when there is one and null
  otherwise, and \<^verbatim>\<open>ensure\<close> always returns a marker of the queried frame, inserting a copy
  of the nearest marker when the frame has none.
\<close>

theorem marker_get_exact_and_ensure:
  "(markers track = [] \<longrightarrow>
      BKE_tracking_marker_get_exact track fr = Inl NullDereference
      \<and> BKE_tracking_marker_ensure track fr = Inl NullDereference)
   \<and> (track_valid track \<and> markers track \<noteq> [] \<longrightarrow>
      (\<exists>i. nearest_marker_index (markers track) fr i
        \<and> (framenr (markers track ! i) = fr \<longleftrightarrow> fr \<in> framenr ` set (markers track))
        \<and> (if fr \<in> framenr ` set (markers track)
           then BKE_tracking_marker_get_exact track fr = Inr (Some i, track\<lparr>last_marker := int i\<rparr>)
              \<and> BKE_tracking_marker_ensure track fr = Inr (Some i, track\<lparr>last_marker := int i\<rparr>)
           else BKE_tracking_marker_get_exact track fr = Inr (None, track)
              \<and> (\<exists>p\<le>length (markers track).
                    BKE_tracking_marker_ensure track fr =
                      Inr (Some p,
                           track\<lparr>markers := take p (markers track)
                                    @ (markers track ! i)\<lparr>framenr := fr\<rparr> # drop p (markers track),
                                 last_marker := int p\<rparr>)))
        \<and> (\<exists>p t'. BKE_tracking_marker_ensure track fr = Inr (Some p, t') \<and> track_valid t'
              \<and> p < length (markers t') \<and> framenr (markers t' ! p) = fr)))"
proof (intro conjI impI)
  assume "markers track = []"
  then show "BKE_tracking_marker_get_exact track fr = Inl NullDereference"
    and "BKE_tracking_marker_ensure track fr = Inl NullDereference"
    by (simp_all add: BKE_tracking_marker_get_exact_def BKE_tracking_marker_ensure_def
        BKE_tracking_marker_get_def)
next
  assume "track_valid track \<and> markers track \<noteq> []"
  then have valid: "track_valid track" and ne: "markers track \<noteq> []" by simp_all
  let ?ms = "markers track"
  have sorted: "sorted_wrt (<) (map framenr ?ms)" using valid by (simp add: track_valid_def)
  obtain i where i: "nearest_marker_index ?ms fr i"
    using marker_get_nearest_index [OF valid ne, of fr] by blast
  then have ilen: "i < length ?ms" by (simp add: nearest_marker_index_def)
  have iff: "framenr (?ms ! i) = fr \<longleftrightarrow> fr \<in> framenr ` set ?ms"
    using nearest_marker_index_exact [OF sorted i] ilen by (metis imageI nth_mem)
  show "\<exists>i. nearest_marker_index ?ms fr i
        \<and> (framenr (?ms ! i) = fr \<longleftrightarrow> fr \<in> framenr ` set ?ms)
        \<and> (if fr \<in> framenr ` set ?ms
           then BKE_tracking_marker_get_exact track fr = Inr (Some i, track\<lparr>last_marker := int i\<rparr>)
              \<and> BKE_tracking_marker_ensure track fr = Inr (Some i, track\<lparr>last_marker := int i\<rparr>)
           else BKE_tracking_marker_get_exact track fr = Inr (None, track)
              \<and> (\<exists>p\<le>length ?ms.
                    BKE_tracking_marker_ensure track fr =
                      Inr (Some p,
                           track\<lparr>markers := take p ?ms @ (?ms ! i)\<lparr>framenr := fr\<rparr> # drop p ?ms,
                                 last_marker := int p\<rparr>)))
        \<and> (\<exists>p t'. BKE_tracking_marker_ensure track fr = Inr (Some p, t') \<and> track_valid t'
              \<and> p < length (markers t') \<and> framenr (markers t' ! p) = fr)"
  proof (cases "fr \<in> framenr ` set ?ms")
    case True
    then have f: "framenr (?ms ! i) = fr" using iff by simp
    have v': "track_valid (track\<lparr>last_marker := int i\<rparr>)"
      using valid by (simp add: track_valid_def)
    show ?thesis
      using True i iff ilen f v' marker_get_exact_present [OF valid ilen f]
        marker_ensure_present [OF valid ilen f]
      by (intro exI [of _ i]) auto
  next
    case False
    define p where "p = marker_insert_position ?ms fr (length ?ms)"
    have ple: "p \<le> length ?ms" using marker_insert_position_le by (simp add: p_def)
    note ens = marker_ensure_absent [OF valid ne False i p_def]
    let ?t2 = "track\<lparr>markers := take p ?ms @ (?ms ! i)\<lparr>framenr := fr\<rparr> # drop p ?ms,
                     last_marker := int p\<rparr>"
    have at_p: "p < length (markers ?t2)" "framenr (markers ?t2 ! p) = fr"
      using ple by (simp_all add: nth_append)
    have last: "\<exists>p t'. BKE_tracking_marker_ensure track fr = Inr (Some p, t') \<and> track_valid t'
              \<and> p < length (markers t') \<and> framenr (markers t' ! p) = fr"
      using ens at_p by blast
    have mid: "\<exists>p\<le>length ?ms.
                    BKE_tracking_marker_ensure track fr =
                      Inr (Some p,
                           track\<lparr>markers := take p ?ms @ (?ms ! i)\<lparr>framenr := fr\<rparr> # drop p ?ms,
                                 last_marker := int p\<rparr>)"
      using ens(1) ple by blast
    show ?thesis
      using False i iff marker_get_exact_absent [OF valid ne False] mid last
      by (intro exI [of _ i]) simp
  qed
qed

text \<open>
  C10 at concrete tracks: the track without markers, and the track with markers at frames
  5, 10 and 20 queried at frame 7.
\<close>

theorem marker_get_exact_and_ensure_witness:
  "markers (track_of_frames [] 0) = []
   \<and> BKE_tracking_marker_get_exact (track_of_frames [] 0) 7 = Inl NullDereference
   \<and> BKE_tracking_marker_ensure (track_of_frames [] 0) 7 = Inl NullDereference
   \<and> track_valid (track_of_frames [5, 10, 20] 0) \<and> markers (track_of_frames [5, 10, 20] 0) \<noteq> []
   \<and> BKE_tracking_marker_get_exact (track_of_frames [5, 10, 20] 0) 7
        = Inr (None, track_of_frames [5, 10, 20] 0)
   \<and> (\<exists>p t'. BKE_tracking_marker_ensure (track_of_frames [5, 10, 20] 0) 7 = Inr (Some p, t')
          \<and> track_valid t' \<and> p < length (markers t') \<and> framenr (markers t' ! p) = 7)"
proof -
  have e: "markers (track_of_frames [] 0) = []" by (simp add: track_of_frames_def)
  have v: "track_valid (track_of_frames [5, 10, 20] 0)" by (simp add: track_of_frames_5_10_20_valid)
  have ne: "markers (track_of_frames [5, 10, 20] 0) \<noteq> []" by (simp add: track_of_frames_def)
  have absent: "7 \<notin> framenr ` set (markers (track_of_frames [5, 10, 20] 0))"
    by (simp add: track_of_frames_def marker_at_frame_def)
  show ?thesis
    using marker_get_exact_and_ensure [of "track_of_frames [] 0" 7]
      marker_get_exact_and_ensure [of "track_of_frames [5, 10, 20] 0" 7] e v ne absent
    by auto
qed

section \<open>Clearing the path of a track\<close>

lemma nearest_marker_index_bounds:
  assumes "sorted_wrt (<) (map framenr ms)" "nearest_marker_index ms ref i"
  shows "i < length ms"
    and "j < length ms \<Longrightarrow> framenr (ms ! j) \<le> ref \<Longrightarrow> j \<le> i"
    and "\<not> ref < framenr (ms ! 0) \<Longrightarrow> framenr (ms ! i) \<le> ref"
    and "ref < framenr (ms ! 0) \<Longrightarrow> i = 0"
proof -
  show "i < length ms" using assms(2) by (simp add: nearest_marker_index_def)
  show "\<not> ref < framenr (ms ! 0) \<Longrightarrow> framenr (ms ! i) \<le> ref"
    using assms(2) by (simp add: nearest_marker_index_def)
  show "ref < framenr (ms ! 0) \<Longrightarrow> i = 0"
    using assms(2) by (simp add: nearest_marker_index_def)
  show "j \<le> i" if j: "j < length ms" "framenr (ms ! j) \<le> ref"
  proof (cases "ref < framenr (ms ! 0)")
    case True
    have "framenr (ms ! 0) \<le> framenr (ms ! j)"
      using frames_mono [OF assms(1), of 0 j] j by simp
    with True j show ?thesis by simp
  next
    case False
    then show ?thesis using assms(2) j by (simp add: nearest_marker_index_def)
  qed
qed

lemma path_clear_remained_scan_take:
  "sorted_wrt (<) (map framenr ms) \<Longrightarrow> nearest_marker_index ms ref i \<Longrightarrow>
   1 \<le> a \<Longrightarrow> a \<le> Suc i \<Longrightarrow> path_clear_remained_scan ms ref a = take (Suc i) ms"
proof (induction ms ref a rule: path_clear_remained_scan.induct)
  case (1 ms ref a)
  note b = nearest_marker_index_bounds [OF "1.prems"(1,2)]
  show ?case
  proof (cases "a < length ms")
    case False
    then have "length ms \<le> Suc i" using "1.prems" by simp
    then show ?thesis using False by (subst path_clear_remained_scan.simps) simp
  next
    case True
    show ?thesis
    proof (cases "framenr (ms ! a) > ref")
      case gt: True
      have "\<not> a \<le> i"
      proof
        assume "a \<le> i"
        then have "framenr (ms ! a) \<le> framenr (ms ! i)"
          using frames_mono [OF "1.prems"(1) _ b(1)] by simp
        moreover have "i \<noteq> 0" using \<open>a \<le> i\<close> "1.prems"(3) by simp
        then have "framenr (ms ! i) \<le> ref" using b(3,4) by blast
        ultimately show False using gt by simp
      qed
      then have "a = Suc i" using "1.prems"(4) by simp
      then show ?thesis using True gt by (subst path_clear_remained_scan.simps) simp
    next
      case le: False
      then have "a \<le> i" using b(2) [of a] True by simp
      then show ?thesis
        using "1.IH" [OF True le "1.prems"(1,2)] "1.prems" True le
        by (subst path_clear_remained_scan.simps) simp
    qed
  qed
qed

lemma path_clear_upto_scan_drop:
  assumes sorted: "sorted_wrt (<) (map framenr ms)" and near: "nearest_marker_index ms ref i"
  shows "k \<le> length ms \<Longrightarrow> (\<forall>j<length ms. k \<le> j \<longrightarrow> ref < framenr (ms ! j)) \<Longrightarrow>
         path_clear_upto_scan ms ref k = drop i ms"
proof (induction k)
  case 0
  note b = nearest_marker_index_bounds [OF sorted near]
  have "0 < length ms" using b(1) by auto
  then have "ref < framenr (ms ! 0)" using "0.prems"(2) by simp
  then show ?case using b(4) by simp
next
  case (Suc a)
  note b = nearest_marker_index_bounds [OF sorted near]
  show ?case
  proof (cases "framenr (ms ! a) \<le> ref")
    case True
    have a: "a < length ms" using Suc.prems by simp
    have "a \<le> i" using b(2) [OF a True] .
    moreover have "\<not> ref < framenr (ms ! 0)"
      using frames_mono [OF sorted, of 0 a] a True by simp
    then have "framenr (ms ! i) \<le> ref" using b(3) by simp
    then have "\<not> Suc a \<le> i" using Suc.prems(2) b(1) by auto
    ultimately have "a = i" by simp
    then show ?thesis using True by simp
  next
    case False
    have "\<forall>j<length ms. a \<le> j \<longrightarrow> ref < framenr (ms ! j)"
    proof (intro allI impI)
      fix j assume j: "j < length ms" "a \<le> j"
      show "ref < framenr (ms ! j)"
      proof (cases "j = a")
        case True
        then show ?thesis using False by simp
      next
        case ne: False
        then show ?thesis using Suc.prems(2) j by simp
      qed
    qed
    then show ?thesis using Suc.IH Suc.prems False by simp
  qed
qed

lemma insert_disabled_overwrite:
  "tracking_marker_insert_disabled track m place_before True =
     (case BKE_tracking_marker_insert track
             (disabled_marker m (if place_before then framenr m - 1 else framenr m + 1)) of
        Inl e \<Rightarrow> Inl e | Inr (p, t1) \<Rightarrow> Inr t1)"
  by (simp add: tracking_marker_insert_disabled_def disabled_marker_def Let_def)

lemma framenr_disabled_marker [simp]: "framenr (disabled_marker m f) = f"
  by (simp add: disabled_marker_def)

lemma path_clear_remained:
  assumes valid: "track_valid track" and near: "nearest_marker_index (markers track) ref i"
  shows "BKE_tracking_track_path_clear track ref TRACK_CLEAR_REMAINED =
     Inr (track\<lparr>markers := take (Suc i) (markers track)
                     @ [disabled_marker (markers track ! i) (framenr (markers track ! i) + 1)],
                last_marker := int (Suc i)\<rparr>)"
proof -
  let ?ms = "markers track"
  let ?ms1 = "take (Suc i) ?ms"
  let ?t1 = "track\<lparr>markers := ?ms1\<rparr>"
  let ?d = "disabled_marker (?ms ! i) (framenr (?ms ! i) + 1)"
  have sorted: "sorted_wrt (<) (map framenr ?ms)" using valid by (simp add: track_valid_def)
  note b = nearest_marker_index_bounds [OF sorted near]
  have scan: "path_clear_remained_scan ?ms ref 1 = ?ms1"
    using path_clear_remained_scan_take [OF sorted near, of 1] by simp
  have len1: "length ?ms1 = Suc i" using b(1) by simp
  have last1: "?ms1 ! i = ?ms ! i" by simp
  have v1: "track_valid ?t1"
    using valid by (simp add: track_valid_def flip: take_map)
  have le: "framenr x \<le> framenr (?ms ! i)" if "x \<in> set ?ms1" for x
  proof -
    from that obtain j where "j < Suc i" "x = ?ms ! j"
      using b(1) by (auto simp: in_set_conv_nth)
    then show ?thesis using frames_mono [OF sorted, of j i] b(1) by simp
  qed
  have absent: "framenr ?d \<notin> framenr ` set (markers ?t1)"
    using le by fastforce
  have pos: "marker_insert_position (markers ?t1) (framenr ?d) (length (markers ?t1)) = Suc i"
    using marker_insert_position_last [of "Suc i" ?ms1 "framenr ?d"] len1 by simp
  have "BKE_tracking_marker_insert ?t1 ?d =
      Inr (Suc i, ?t1\<lparr>markers := take (Suc i) (markers ?t1) @ ?d # drop (Suc i) (markers ?t1),
                      last_marker := int (Suc i)\<rparr>)"
    by (rule marker_insert_new [OF v1 absent pos [symmetric]])
  then have ins: "BKE_tracking_marker_insert ?t1 ?d =
      Inr (Suc i, track\<lparr>markers := ?ms1 @ [?d], last_marker := int (Suc i)\<rparr>)"
    using len1 by simp
  have ne1: "?ms1 \<noteq> []" using b(1) by auto
  show ?thesis
    unfolding BKE_tracking_track_path_clear_def
    using scan ne1 ins len1 last1 by (simp add: insert_disabled_overwrite Let_def)
qed

lemma path_clear_upto:
  assumes valid: "track_valid track" and near: "nearest_marker_index (markers track) ref i"
  shows "BKE_tracking_track_path_clear track ref TRACK_CLEAR_UPTO =
     Inr (track\<lparr>markers := disabled_marker (markers track ! i) (framenr (markers track ! i) - 1)
                     # drop i (markers track),
                last_marker := 0\<rparr>)"
proof -
  let ?ms = "markers track"
  let ?ms1 = "drop i ?ms"
  let ?t1 = "track\<lparr>markers := ?ms1\<rparr>"
  let ?d = "disabled_marker (?ms ! i) (framenr (?ms ! i) - 1)"
  have sorted: "sorted_wrt (<) (map framenr ?ms)" using valid by (simp add: track_valid_def)
  note b = nearest_marker_index_bounds [OF sorted near]
  have scan: "path_clear_upto_scan ?ms ref (length ?ms) = ?ms1"
    using path_clear_upto_scan_drop [OF sorted near, of "length ?ms"] by simp
  have first1: "?ms1 ! 0 = ?ms ! i" using b(1) by simp
  have ne1: "?ms1 \<noteq> []" using b(1) by simp
  have v1: "track_valid ?t1"
    using valid by (simp add: track_valid_def flip: drop_map)
  have ge: "framenr (?ms ! i) \<le> framenr (?ms1 ! j)" if "j < length ?ms1" for j
    using that frames_mono [OF sorted, of i "i + j"] by simp
  then have ge': "\<forall>j<length ?ms1. \<not> framenr (?ms1 ! j) < framenr ?d"
    by fastforce
  have absent: "framenr ?d \<notin> framenr ` set (markers ?t1)"
  proof
    assume "framenr ?d \<in> framenr ` set (markers ?t1)"
    then obtain j where "j < length ?ms1" "framenr (?ms1 ! j) = framenr ?d"
      by (auto simp: in_set_conv_nth)
    then show False using ge [of j] by simp
  qed
  have pos: "marker_insert_position (markers ?t1) (framenr ?d) (length (markers ?t1)) = 0"
    using marker_insert_position_first [OF ge'] by simp
  have "BKE_tracking_marker_insert ?t1 ?d =
      Inr (0, ?t1\<lparr>markers := take 0 (markers ?t1) @ ?d # drop 0 (markers ?t1),
                      last_marker := int 0\<rparr>)"
    by (rule marker_insert_new [OF v1 absent pos [symmetric]])
  then have ins: "BKE_tracking_marker_insert ?t1 ?d =
      Inr (0, track\<lparr>markers := ?d # ?ms1, last_marker := 0\<rparr>)"
    by simp
  show ?thesis
    unfolding BKE_tracking_track_path_clear_def
    using scan ne1 ins first1 by (simp add: insert_disabled_overwrite Let_def)
qed

lemma path_clear_all:
  assumes valid: "track_valid track" and near: "nearest_marker_index (markers track) ref i"
  shows "BKE_tracking_track_path_clear track ref TRACK_CLEAR_ALL =
     Inr (track\<lparr>markers := [disabled_marker (markers track ! i) (framenr (markers track ! i) - 1),
                            markers track ! i,
                            disabled_marker (markers track ! i) (framenr (markers track ! i) + 1)],
                last_marker := 2\<rparr>)"
proof -
  let ?ms = "markers track"
  let ?m = "?ms ! i"
  let ?d1 = "disabled_marker ?m (framenr ?m - 1)"
  let ?d2 = "disabled_marker ?m (framenr ?m + 1)"
  have sorted: "sorted_wrt (<) (map framenr ?ms)" using valid by (simp add: track_valid_def)
  have ilen: "i < length ?ms" using near by (simp add: nearest_marker_index_def)
  then have ne: "?ms \<noteq> []" by auto
  obtain k where k: "nearest_marker_index ?ms ref k"
    "BKE_tracking_marker_get track ref =
       Inr (Some k, if framenr (?ms ! k) = ref then track\<lparr>last_marker := int k\<rparr> else track)"
    using marker_get_nearest_index [OF valid ne, of ref] by blast
  have ki: "k = i" using nearest_marker_index_unique [OF sorted k(1) near] .
  define t1 where "t1 = (if framenr (?ms ! i) = ref then track\<lparr>last_marker := int i\<rparr> else track)"
  have get: "BKE_tracking_marker_get track ref = Inr (Some i, t1)"
    using k(2) unfolding ki t1_def .
  have ms1: "markers t1 = ?ms" and c1: "0 \<le> last_marker t1"
    using valid by (auto simp: t1_def track_valid_def)
  let ?t0 = "t1\<lparr>markers := []\<rparr>"
  have v0: "track_valid ?t0" using c1 by (simp add: track_valid_def)
  have ins0: "BKE_tracking_marker_insert ?t0 ?m = Inr (0, t1\<lparr>markers := [?m], last_marker := 0\<rparr>)"
    using marker_insert_new [OF v0, of ?m 0] by simp
  let ?t2 = "t1\<lparr>markers := [?m], last_marker := 0\<rparr>"
  have v2: "track_valid ?t2" by (simp add: track_valid_def)
  have ins1: "BKE_tracking_marker_insert ?t2 ?d1 = Inr (0, t1\<lparr>markers := [?d1, ?m], last_marker := 0\<rparr>)"
    using marker_insert_new [OF v2, of ?d1 0] by simp
  let ?t3 = "t1\<lparr>markers := [?d1, ?m], last_marker := 0\<rparr>"
  have v3: "track_valid ?t3" by (simp add: track_valid_def)
  have ins2: "BKE_tracking_marker_insert ?t3 ?d2 = Inr (2, t1\<lparr>markers := [?d1, ?m, ?d2], last_marker := 2\<rparr>)"
    using marker_insert_new [OF v3, of ?d2 2] by (simp add: numeral_2_eq_2)
  have fin: "t1\<lparr>markers := [?d1, ?m, ?d2], last_marker := 2\<rparr>
      = track\<lparr>markers := [?d1, ?m, ?d2], last_marker := 2\<rparr>"
    by (simp add: t1_def)
  show ?thesis
    unfolding BKE_tracking_track_path_clear_def
    using get ins0 ins1 ins2 fin by (simp add: insert_disabled_overwrite ms1 Let_def)
qed

lemma disabled_marker_flag: "MARKER_DISABLED \<in> flag (disabled_marker m f)"
  by (simp add: disabled_marker_def)

text \<open>
  C6, as the code has it. For a track with at least one marker and every reference frame, let
  \<open>m\<close> be the marker that \<^verbatim>\<open>BKE_tracking_marker_get\<close> gives for the reference frame (the
  marker of that frame when the track has one, otherwise the nearest earlier marker, or the
  first marker). \<open>TRACK_CLEAR_REMAINED\<close> keeps the markers up to \<open>m\<close> and appends a disabled
  copy of \<open>m\<close> one frame after \<open>m\<close>; \<open>TRACK_CLEAR_UPTO\<close> keeps the markers from \<open>m\<close> on and
  puts a disabled copy of \<open>m\<close> one frame before \<open>m\<close> in front; \<open>TRACK_CLEAR_ALL\<close> leaves only
  \<open>m\<close> between disabled copies one frame before and one frame after it. The frame that
  receives a disabled marker holds no surviving marker. When the track has a marker at the
  reference frame, \<open>m\<close> is that marker.
\<close>

theorem path_clear_brackets_nearest:
  assumes "track_valid track" "markers track \<noteq> []"
  shows "\<exists>i. nearest_marker_index (markers track) ref i
     \<and> (ref \<in> framenr ` set (markers track) \<longrightarrow> framenr (markers track ! i) = ref)
     \<and> BKE_tracking_track_path_clear track ref TRACK_CLEAR_REMAINED =
         Inr (track\<lparr>markers := take (Suc i) (markers track)
                         @ [disabled_marker (markers track ! i) (framenr (markers track ! i) + 1)],
                    last_marker := int (Suc i)\<rparr>)
     \<and> BKE_tracking_track_path_clear track ref TRACK_CLEAR_UPTO =
         Inr (track\<lparr>markers := disabled_marker (markers track ! i) (framenr (markers track ! i) - 1)
                         # drop i (markers track),
                    last_marker := 0\<rparr>)
     \<and> BKE_tracking_track_path_clear track ref TRACK_CLEAR_ALL =
         Inr (track\<lparr>markers := [disabled_marker (markers track ! i) (framenr (markers track ! i) - 1),
                                markers track ! i,
                                disabled_marker (markers track ! i) (framenr (markers track ! i) + 1)],
                    last_marker := 2\<rparr>)
     \<and> framenr (markers track ! i) + 1 \<notin> framenr ` set (take (Suc i) (markers track))
     \<and> framenr (markers track ! i) - 1 \<notin> framenr ` set (drop i (markers track))
     \<and> MARKER_DISABLED \<in> flag (disabled_marker (markers track ! i) (framenr (markers track ! i) + 1))
     \<and> MARKER_DISABLED \<in> flag (disabled_marker (markers track ! i) (framenr (markers track ! i) - 1))"
proof -
  let ?ms = "markers track"
  have sorted: "sorted_wrt (<) (map framenr ?ms)" using assms(1) by (simp add: track_valid_def)
  obtain i where i: "nearest_marker_index ?ms ref i"
    using marker_get_nearest_index [OF assms, of ref] by blast
  note b = nearest_marker_index_bounds [OF sorted i]
  have exact: "ref \<in> framenr ` set ?ms \<longrightarrow> framenr (?ms ! i) = ref"
    using nearest_marker_index_exact [OF sorted i] by simp
  have free_after: "framenr (?ms ! i) + 1 \<notin> framenr ` set (take (Suc i) ?ms)"
  proof
    assume "framenr (?ms ! i) + 1 \<in> framenr ` set (take (Suc i) ?ms)"
    then obtain j where j: "j < Suc i" "framenr (?ms ! j) = framenr (?ms ! i) + 1"
      using b(1) by (auto simp: in_set_conv_nth)
    then show False using frames_mono [OF sorted, of j i] b(1) by simp
  qed
  have free_before: "framenr (?ms ! i) - 1 \<notin> framenr ` set (drop i ?ms)"
  proof
    assume "framenr (?ms ! i) - 1 \<in> framenr ` set (drop i ?ms)"
    then obtain j where j: "j < length ?ms - i" "framenr (?ms ! (i + j)) = framenr (?ms ! i) - 1"
      by (auto simp: in_set_conv_nth)
    moreover from j have "i + j < length ?ms" by linarith
    ultimately show False using frames_mono [OF sorted, of i "i + j"] by simp
  qed
  show ?thesis
    using i exact free_after free_before
      path_clear_remained [OF assms(1) i] path_clear_upto [OF assms(1) i]
      path_clear_all [OF assms(1) i] disabled_marker_flag
    by blast
qed

lemma nearest_5_10_20:
  "nearest_marker_index [marker_at_frame 5, marker_at_frame 10, marker_at_frame 20] 15 i \<longleftrightarrow> i = 1"
  unfolding nearest_marker_index_def
  by (auto simp: marker_at_frame_def nth_Cons' less_Suc_eq numeral_3_eq_3 all_conj_distrib)

text \<open>
  C6 as stated fails when the reference frame has no marker: with markers at frames 5, 10
  and 20 and the reference frame 15, \<open>TRACK_CLEAR_REMAINED\<close> leaves the frames 5, 10, 11 and
  \<open>TRACK_CLEAR_ALL\<close> the frames 9, 10, 11: the disabled markers are at neither 14 nor 16, and
  the single marker kept by \<open>TRACK_CLEAR_ALL\<close> is at frame 10, not 15.
\<close>

theorem path_clear_counterexample:
  "BKE_tracking_track_path_clear (track_of_frames [5, 10, 20] 0) 15 TRACK_CLEAR_REMAINED =
     Inr ((track_of_frames [5, 10, 20] 2)
            \<lparr>markers := [marker_at_frame 5, marker_at_frame 10,
                         disabled_marker (marker_at_frame 10) 11]\<rparr>)
   \<and> BKE_tracking_track_path_clear (track_of_frames [5, 10, 20] 0) 15 TRACK_CLEAR_ALL =
     Inr ((track_of_frames [5, 10, 20] 2)
            \<lparr>markers := [disabled_marker (marker_at_frame 10) 9, marker_at_frame 10,
                         disabled_marker (marker_at_frame 10) 11]\<rparr>)
   \<and> map framenr [marker_at_frame 5, marker_at_frame 10, disabled_marker (marker_at_frame 10) 11]
       = [5, 10, 11]
   \<and> map framenr [disabled_marker (marker_at_frame 10) 9, marker_at_frame 10,
                   disabled_marker (marker_at_frame 10) 11] = [9, 10, 11]"
proof -
  let ?t = "track_of_frames [5, 10, 20] 0"
  have v: "track_valid ?t" by (simp add: track_of_frames_5_10_20_valid)
  have ms: "markers ?t = [marker_at_frame 5, marker_at_frame 10, marker_at_frame 20]"
    by (simp add: track_of_frames_def)
  have near: "nearest_marker_index (markers ?t) 15 1"
    unfolding ms by (simp add: nearest_5_10_20)
  have f: "framenr (marker_at_frame 10) = 10" by (simp add: marker_at_frame_def)
  show ?thesis
    using path_clear_remained [OF v near] path_clear_all [OF v near]
    by (simp add: ms f track_of_frames_def marker_at_frame_def)
qed

text \<open>The amended C6 at the same track and reference frame, for \<open>TRACK_CLEAR_UPTO\<close>.\<close>

theorem path_clear_brackets_nearest_witness:
  "track_valid (track_of_frames [5, 10, 20] 0) \<and> markers (track_of_frames [5, 10, 20] 0) \<noteq> []
   \<and> BKE_tracking_track_path_clear (track_of_frames [5, 10, 20] 0) 15 TRACK_CLEAR_UPTO =
     Inr ((track_of_frames [5, 10, 20] 0)
            \<lparr>markers := [disabled_marker (marker_at_frame 10) 9, marker_at_frame 10,
                         marker_at_frame 20]\<rparr>)"
proof -
  let ?t = "track_of_frames [5, 10, 20] 0"
  have v: "track_valid ?t" by (simp add: track_of_frames_5_10_20_valid)
  have ms: "markers ?t = [marker_at_frame 5, marker_at_frame 10, marker_at_frame 20]"
    by (simp add: track_of_frames_def)
  have ne: "markers ?t \<noteq> []" by (simp add: ms)
  have f: "framenr (marker_at_frame 10) = 10" by (simp add: marker_at_frame_def)
  have "BKE_tracking_track_path_clear ?t 15 TRACK_CLEAR_UPTO =
     Inr (?t\<lparr>markers := [disabled_marker (marker_at_frame 10) 9, marker_at_frame 10,
                         marker_at_frame 20], last_marker := 0\<rparr>)"
    using path_clear_brackets_nearest [OF v ne, of 15]
    by (auto simp: ms nearest_5_10_20 f)
  then show ?thesis using v ne by (simp add: track_of_frames_def)
qed

section \<open>The invariant of the marker array\<close>













section \<open>Coverage segments of the dopesheet\<close>














section \<open>The rescale of disabled channels\<close>







section \<open>The origin of a retrieved reconstruction\<close>

lemma map_filter_cong_set:
  "(\<And>x. x \<in> set xs \<Longrightarrow> f x = g x) \<Longrightarrow> List.map_filter f xs = List.map_filter g xs"
  by (induction xs) (auto split: option.splits)

lemma map_filter_member:
  "x \<in> set xs \<Longrightarrow> f x = Some y \<Longrightarrow> y \<in> set (List.map_filter f xs)"
  by (induction xs) (auto split: option.splits)

lemma retrieve_cameras_origin_set:
  "retrieve_cameras m4 libmv frames True imat =
     (List.map_filter (\<lambda>f. case libmv_reporojectionCameraForImage libmv f of
                           None \<Rightarrow> None
                         | Some mat \<Rightarrow> Some \<lparr>camera_framenr = f, camera_mat = mul_m4_m4m4 m4 imat mat,
                               camera_error = libmv_reporojectionErrorForImage libmv f\<rparr>) frames,
      True, imat, \<forall>f\<in>set frames. libmv_reporojectionCameraForImage libmv f \<noteq> None)"
  by (induction frames) (auto split: option.splits)

lemma retrieve_cameras_no_camera:
  "\<forall>f\<in>set pre. libmv_reporojectionCameraForImage libmv f = None \<Longrightarrow>
   retrieve_cameras m4 libmv (pre @ frames) origin_set imat =
     (case retrieve_cameras m4 libmv frames origin_set imat of
        (cams, origin_set', imat', ok) \<Rightarrow> (cams, origin_set', imat', ok \<and> pre = []))"
  by (induction pre) (auto split: prod.splits)

lemma retrieve_track_bundles_nth:
  "length (fst (retrieve_track_bundles libmv tracks n)) = length tracks \<and>
   (\<forall>k<length tracks.
      fst (retrieve_track_bundles libmv tracks n) ! k =
        (case libmv_reporojectionPointForTrack libmv (n + k) of
           Some p \<Rightarrow> (tracks ! k)\<lparr>bundle_pos := p,
                         track_flag := insert TRACK_HAS_BUNDLE (track_flag (tracks ! k)),
                         error := libmv_reporojectionErrorForTrack libmv (n + k)\<rparr>
         | None \<Rightarrow> (tracks ! k)\<lparr>track_flag := track_flag (tracks ! k) - {TRACK_HAS_BUNDLE}\<rparr>))"
proof (induction tracks arbitrary: n)
  case Nil
  then show ?case by simp
next
  case (Cons t tracks)
  obtain ts ok where r: "retrieve_track_bundles libmv tracks (n + 1) = (ts, ok)"
    by (cases "retrieve_track_bundles libmv tracks (n + 1)")
  have ih: "length ts = length tracks"
    "\<forall>k<length tracks. ts ! k =
        (case libmv_reporojectionPointForTrack libmv (n + 1 + k) of
           Some p \<Rightarrow> (tracks ! k)\<lparr>bundle_pos := p,
                         track_flag := insert TRACK_HAS_BUNDLE (track_flag (tracks ! k)),
                         error := libmv_reporojectionErrorForTrack libmv (n + 1 + k)\<rparr>
         | None \<Rightarrow> (tracks ! k)\<lparr>track_flag := track_flag (tracks ! k) - {TRACK_HAS_BUNDLE}\<rparr>)"
    using Cons.IH [of "n + 1"] r by simp_all
  show ?case
  proof (intro conjI allI impI)
    show "length (fst (retrieve_track_bundles libmv (t # tracks) n)) = length (t # tracks)"
      using r ih(1) by (simp split: option.splits)
  next
    fix k assume k: "k < length (t # tracks)"
    show "fst (retrieve_track_bundles libmv (t # tracks) n) ! k =
        (case libmv_reporojectionPointForTrack libmv (n + k) of
           Some p \<Rightarrow> ((t # tracks) ! k)\<lparr>bundle_pos := p,
                         track_flag := insert TRACK_HAS_BUNDLE (track_flag ((t # tracks) ! k)),
                         error := libmv_reporojectionErrorForTrack libmv (n + k)\<rparr>
         | None \<Rightarrow> ((t # tracks) ! k)\<lparr>track_flag := track_flag ((t # tracks) ! k) - {TRACK_HAS_BUNDLE}\<rparr>)"
    proof (cases k)
      case 0
      then show ?thesis using r by (simp split: option.splits)
    next
      case (Suc j)
      then have "j < length tracks" using k by simp
      then show ?thesis using r ih(2) Suc by (simp split: option.splits)
    qed
  qed
qed

text \<open>
  C3. When the solver has a camera pose for some frame of the range from \<open>sfra\<close> to \<open>efra\<close>
  and \<open>f0\<close> is the first such frame, with the pose \<open>M0\<close>, then after the retrieval the camera
  stored first is the one of frame \<open>f0\<close> and its matrix is the unit matrix; the camera stored
  for every later frame that has a pose \<open>M\<close> is the product of the inverse of \<open>M0\<close> with \<open>M\<close>;
  and the bundle position of every track that received a bundle is the point of the solver
  transformed by the inverse of \<open>M0\<close> (a track without a bundle keeps its position).
\<close>

theorem reconstruct_retrieve_origin:
  assumes "sfra \<le> f0" "f0 \<le> efra"
    and "libmv_reporojectionCameraForImage libmv f0 = Some M0"
    and "\<forall>g. sfra \<le> g \<and> g < f0 \<longrightarrow> libmv_reporojectionCameraForImage libmv g = None"
  shows "\<exists>tracks' cams ok.
      reconstruct_retrieve_libmv_tracks m4 libmv sfra efra tracks = (tracks', cams, ok)
    \<and> cams = List.map_filter
               (\<lambda>f. case libmv_reporojectionCameraForImage libmv f of
                      None \<Rightarrow> None
                    | Some mat \<Rightarrow>
                        Some \<lparr>camera_framenr = f,
                              camera_mat = (if f = f0 then unit_m4 m4
                                            else mul_m4_m4m4 m4 (invert_m4_m4 m4 M0) mat),
                              camera_error = libmv_reporojectionErrorForImage libmv f\<rparr>)
               [sfra..efra]
    \<and> hd cams = \<lparr>camera_framenr = f0, camera_mat = unit_m4 m4,
                  camera_error = libmv_reporojectionErrorForImage libmv f0\<rparr>
    \<and> (\<forall>f mat. f0 < f \<and> f \<le> efra \<and> libmv_reporojectionCameraForImage libmv f = Some mat \<longrightarrow>
          \<lparr>camera_framenr = f, camera_mat = mul_m4_m4m4 m4 (invert_m4_m4 m4 M0) mat,
           camera_error = libmv_reporojectionErrorForImage libmv f\<rparr> \<in> set cams)
    \<and> length tracks' = length tracks
    \<and> (\<forall>k<length tracks.
          case libmv_reporojectionPointForTrack libmv k of
            Some p \<Rightarrow> bundle_pos (tracks' ! k) = mul_v3_m4v3 m4 (invert_m4_m4 m4 M0) p
                       \<and> TRACK_HAS_BUNDLE \<in> track_flag (tracks' ! k)
          | None \<Rightarrow> bundle_pos (tracks' ! k) = bundle_pos (tracks ! k)
                     \<and> TRACK_HAS_BUNDLE \<notin> track_flag (tracks' ! k))"
proof -
  let ?cam = "libmv_reporojectionCameraForImage libmv"
  let ?err = "libmv_reporojectionErrorForImage libmv"
  let ?imat = "invert_m4_m4 m4 M0"
  let ?entry = "\<lambda>f. case ?cam f of None \<Rightarrow> None
                    | Some mat \<Rightarrow>
                        Some \<lparr>camera_framenr = f,
                              camera_mat = (if f = f0 then unit_m4 m4 else mul_m4_m4m4 m4 ?imat mat),
                              camera_error = ?err f\<rparr>"
  let ?later = "\<lambda>f. case ?cam f of None \<Rightarrow> None
                    | Some mat \<Rightarrow> Some \<lparr>camera_framenr = f, camera_mat = mul_m4_m4m4 m4 ?imat mat,
                               camera_error = ?err f\<rparr>"
  let ?first = "\<lparr>camera_framenr = f0, camera_mat = unit_m4 m4, camera_error = ?err f0\<rparr>"
  have split: "[sfra..efra] = [sfra..f0 - 1] @ f0 # [f0 + 1..efra]"
    using assms(1,2) by (rule upto_split3)
  have pre: "\<forall>f\<in>set [sfra..f0 - 1]. ?cam f = None" using assms(4) by simp
  define okc where "okc \<longleftrightarrow> (\<forall>f\<in>set [f0 + 1..efra]. ?cam f \<noteq> None) \<and> [sfra..f0 - 1] = []"
  have cams: "retrieve_cameras m4 libmv [sfra..efra] False (unit_m4 m4) =
      (?first # List.map_filter ?later [f0 + 1..efra], True, ?imat, okc)"
    unfolding split retrieve_cameras_no_camera [OF pre] okc_def
    using assms(3) by (simp add: retrieve_cameras_origin_set)
  have pre_entries: "List.map_filter ?entry [sfra..f0 - 1] = []"
    using pre by (induction "[sfra..f0 - 1]" arbitrary: sfra) (auto simp: List.map_filter_def)
  have post_entries: "List.map_filter ?entry [f0 + 1..efra] = List.map_filter ?later [f0 + 1..efra]"
    by (rule map_filter_cong_set) (auto split: option.splits)
  have all_entries: "List.map_filter ?entry [sfra..efra] = ?first # List.map_filter ?later [f0 + 1..efra]"
    unfolding split using assms(3) pre_entries post_entries
    by (simp add: List.map_filter_def)
  obtain tracks1 ok1 where b: "retrieve_track_bundles libmv tracks 0 = (tracks1, ok1)"
    by (cases "retrieve_track_bundles libmv tracks 0")
  note nth = retrieve_track_bundles_nth [of libmv tracks 0, unfolded b, simplified]
  define tracks' where "tracks' = map (\<lambda>track. if TRACK_HAS_BUNDLE \<in> track_flag track
                               then track\<lparr>bundle_pos := mul_v3_m4v3 m4 ?imat (bundle_pos track)\<rparr>
                               else track) tracks1"
  define cams where "cams = ?first # List.map_filter ?later [f0 + 1..efra]"
  define ok where "ok \<longleftrightarrow> ok1 \<and> okc"
  have run: "reconstruct_retrieve_libmv_tracks m4 libmv sfra efra tracks = (tracks', cams, ok)"
    by (simp add: reconstruct_retrieve_libmv_tracks_def b cams tracks'_def cams_def ok_def)
  have entries: "cams = List.map_filter ?entry [sfra..efra]"
    using all_entries by (simp add: cams_def)
  have first: "hd cams = ?first" by (simp add: cams_def)
  have later_mem: "\<forall>f mat. f0 < f \<and> f \<le> efra \<and> ?cam f = Some mat \<longrightarrow>
      \<lparr>camera_framenr = f, camera_mat = mul_m4_m4m4 m4 ?imat mat, camera_error = ?err f\<rparr> \<in> set cams"
  proof (intro allI impI)
    fix f mat assume f: "f0 < f \<and> f \<le> efra \<and> ?cam f = Some mat"
    then have "f \<in> set [f0 + 1..efra]" by simp
    then have "\<lparr>camera_framenr = f, camera_mat = mul_m4_m4m4 m4 ?imat mat, camera_error = ?err f\<rparr>
        \<in> set (List.map_filter ?later [f0 + 1..efra])"
      using f by (intro map_filter_member [of f]) simp_all
    then show "\<lparr>camera_framenr = f, camera_mat = mul_m4_m4m4 m4 ?imat mat, camera_error = ?err f\<rparr>
        \<in> set cams"
      by (simp add: cams_def)
  qed
  have len: "length tracks' = length tracks" using nth by (simp add: tracks'_def)
  have bundles: "\<forall>k<length tracks.
          case libmv_reporojectionPointForTrack libmv k of
            Some p \<Rightarrow> bundle_pos (tracks' ! k) = mul_v3_m4v3 m4 ?imat p
                       \<and> TRACK_HAS_BUNDLE \<in> track_flag (tracks' ! k)
          | None \<Rightarrow> bundle_pos (tracks' ! k) = bundle_pos (tracks ! k)
                     \<and> TRACK_HAS_BUNDLE \<notin> track_flag (tracks' ! k)"
    using nth by (auto simp: tracks'_def split: option.splits)
  from run entries first later_mem len bundles show ?thesis
    by blast
qed


text \<open>
  The scenario of C3 with matrices of one row and one column: poses for the frames 5 to 20,
  the pose of frame \<open>f\<close> being \<open>f\<close>, retrieved over the range from 3 to 20. The camera of frame 5
  is the unit, the camera of frame 10 is the inverse of 5 times 10.
\<close>

theorem reconstruct_retrieve_origin_witness:
  "(3::int) \<le> 5 \<and> (5::int) \<le> 20
   \<and> libmv_reporojectionCameraForImage example_libmv 5 = Some 5
   \<and> libmv_reporojectionCameraForImage example_libmv 3 = None
   \<and> libmv_reporojectionCameraForImage example_libmv 4 = None
   \<and> hd (fst (snd (reconstruct_retrieve_libmv_tracks real_m4 example_libmv 3 20
                      [track_of_frames [1] 0, track_of_frames [1] 0])))
       = \<lparr>camera_framenr = 5, camera_mat = 1, camera_error = 0\<rparr>
   \<and> \<lparr>camera_framenr = 10, camera_mat = inverse 5 * 10, camera_error = 0\<rparr>
       \<in> set (fst (snd (reconstruct_retrieve_libmv_tracks real_m4 example_libmv 3 20
                          [track_of_frames [1] 0, track_of_frames [1] 0])))
   \<and> bundle_pos (fst (reconstruct_retrieve_libmv_tracks real_m4 example_libmv 3 20
                         [track_of_frames [1] 0, track_of_frames [1] 0]) ! 0)
       = (inverse 5 * 1, inverse 5 * 2, inverse 5 * 3)
   \<and> TRACK_HAS_BUNDLE \<notin> track_flag (fst (reconstruct_retrieve_libmv_tracks real_m4 example_libmv 3 20
                                              [track_of_frames [1] 0, track_of_frames [1] 0]) ! 1)"
proof -
  let ?tracks = "[track_of_frames [1] 0, track_of_frames [1] 0]"
  have c5: "libmv_reporojectionCameraForImage example_libmv 5 = Some 5"
    and c10: "libmv_reporojectionCameraForImage example_libmv 10 = Some 10"
    and c3: "libmv_reporojectionCameraForImage example_libmv 3 = None"
    and c4: "libmv_reporojectionCameraForImage example_libmv 4 = None"
    and none: "\<forall>g. 3 \<le> g \<and> g < 5 \<longrightarrow> libmv_reporojectionCameraForImage example_libmv g = None"
    and p0: "libmv_reporojectionPointForTrack example_libmv 0 = Some (1, 2, 3)"
    and p1: "libmv_reporojectionPointForTrack example_libmv 1 = None"
    and e: "libmv_reporojectionErrorForImage example_libmv = (\<lambda>f. 0)"
    by (simp_all add: example_libmv_def)
  have m: "unit_m4 real_m4 = 1" "invert_m4_m4 real_m4 = inverse" "mul_m4_m4m4 real_m4 = (*)"
    "mul_v3_m4v3 real_m4 = (\<lambda>m (x, y, z). (m * x, m * y, m * z))"
    by (simp_all add: real_m4_def)
  obtain tracks' cams ok where r:
    "reconstruct_retrieve_libmv_tracks real_m4 example_libmv 3 20 ?tracks = (tracks', cams, ok)"
    "hd cams = \<lparr>camera_framenr = 5, camera_mat = unit_m4 real_m4,
                  camera_error = libmv_reporojectionErrorForImage example_libmv 5\<rparr>"
    "\<forall>f mat. 5 < f \<and> f \<le> 20 \<and> libmv_reporojectionCameraForImage example_libmv f = Some mat \<longrightarrow>
          \<lparr>camera_framenr = f, camera_mat = mul_m4_m4m4 real_m4 (invert_m4_m4 real_m4 5) mat,
           camera_error = libmv_reporojectionErrorForImage example_libmv f\<rparr> \<in> set cams"
    "\<forall>k<length ?tracks.
          case libmv_reporojectionPointForTrack example_libmv k of
            Some p \<Rightarrow> bundle_pos (tracks' ! k) = mul_v3_m4v3 real_m4 (invert_m4_m4 real_m4 5) p
                       \<and> TRACK_HAS_BUNDLE \<in> track_flag (tracks' ! k)
          | None \<Rightarrow> bundle_pos (tracks' ! k) = bundle_pos (?tracks ! k)
                     \<and> TRACK_HAS_BUNDLE \<notin> track_flag (tracks' ! k)"
    using reconstruct_retrieve_origin [of 3 5 20 example_libmv 5 real_m4 ?tracks] c5 none
    by auto
  have k0: "bundle_pos (tracks' ! 0) = (inverse 5 * 1, inverse 5 * 2, inverse 5 * 3)"
    using r(4) [rule_format, of 0] p0 by (simp add: m)
  have k1: "TRACK_HAS_BUNDLE \<notin> track_flag (tracks' ! 1)"
    using r(4) [rule_format, of 1] p1 by simp
  have f10: "\<lparr>camera_framenr = 10, camera_mat = inverse 5 * 10, camera_error = 0\<rparr> \<in> set cams"
    using r(3) [rule_format, of 10 10] c10 by (simp add: m e)
  show ?thesis
    using r(1,2) k0 k1 f10 c5 c3 c4 by (simp add: m e)
qed

section \<open>Stabilization without effect\<close>












section \<open>The markers of joined tracks\<close>


lemma marker_at_nth:
  assumes "sorted_wrt (<) (map framenr ms)" "i < length ms"
  shows "marker_at ms (framenr (ms ! i)) = Some (ms ! i)"
proof -
  have "\<forall>j<i. framenr (ms ! j) \<noteq> framenr (ms ! i)"
    using frames_strict_mono [OF assms(1) _ assms(2)] by fastforce
  then show ?thesis
    unfolding marker_at_def find_Some_iff using assms(2) by blast
qed

lemma marker_at_None:
  "\<forall>i<length ms. framenr (ms ! i) \<noteq> f \<Longrightarrow> marker_at ms f = None"
  unfolding marker_at_def find_None_iff by (auto simp: in_set_conv_nth)

lemma marker_at_Some:
  "marker_at ms f = Some m \<Longrightarrow> \<exists>i<length ms. ms ! i = m \<and> framenr (ms ! i) = f"
  unfolding marker_at_def find_Some_iff by blast

lemma enabled_at_nth:
  "sorted_wrt (<) (map framenr ms) \<Longrightarrow> i < length ms \<Longrightarrow>
   enabled_at ms (framenr (ms ! i)) \<longleftrightarrow> MARKER_DISABLED \<notin> flag (ms ! i)"
  by (simp add: enabled_at_def marker_at_nth)

lemma enabled_atD:
  "enabled_at ms f \<Longrightarrow> \<exists>i<length ms. framenr (ms ! i) = f \<and> MARKER_DISABLED \<notin> flag (ms ! i)"
  unfolding enabled_at_def using marker_at_Some [of ms f]
  by (cases "marker_at ms f") auto

text \<open>An enabled marker one frame before the marker at an index is the marker before it.\<close>

lemma enabled_before_index:
  assumes sorted: "sorted_wrt (<) (map framenr ms)" and b: "b < length ms"
    and en: "enabled_at ms (framenr (ms ! b) - 1)"
  shows "0 < b \<and> framenr (ms ! (b - 1)) = framenr (ms ! b) - 1 \<and> MARKER_DISABLED \<notin> flag (ms ! (b - 1))"
proof -
  obtain i where i: "i < length ms" "framenr (ms ! i) = framenr (ms ! b) - 1"
    "MARKER_DISABLED \<notin> flag (ms ! i)"
    using enabled_atD [OF en] by blast
  have "\<not> b \<le> i" using frames_mono [OF sorted, of b i] i by auto
  then have ib: "i < b" by simp
  then have "framenr (ms ! i) \<le> framenr (ms ! (b - 1))"
    using frames_mono [OF sorted, of i "b - 1"] b by simp
  moreover have "framenr (ms ! (b - 1)) < framenr (ms ! b)"
    using frames_strict_mono [OF sorted, of "b - 1" b] ib b by simp
  ultimately have "framenr (ms ! (b - 1)) = framenr (ms ! i)" using i(2) by simp
  then have "b - 1 = i" using frames_inj [OF sorted i(1), of "b - 1"] b by simp
  then show ?thesis using i ib by auto
qed

text \<open>An enabled marker one frame after the marker at an index is the marker after it.\<close>

lemma enabled_after_index:
  assumes sorted: "sorted_wrt (<) (map framenr ms)" and b: "b < length ms"
    and en: "enabled_at ms (framenr (ms ! b) + 1)"
  shows "Suc b < length ms \<and> framenr (ms ! Suc b) = framenr (ms ! b) + 1
         \<and> MARKER_DISABLED \<notin> flag (ms ! Suc b)"
proof -
  obtain i where i: "i < length ms" "framenr (ms ! i) = framenr (ms ! b) + 1"
    "MARKER_DISABLED \<notin> flag (ms ! i)"
    using enabled_atD [OF en] by blast
  have "\<not> i \<le> b" using frames_mono [OF sorted, of i b] i b by auto
  then have ib: "Suc b \<le> i" by simp
  then have "framenr (ms ! Suc b) \<le> framenr (ms ! i)"
    using frames_mono [OF sorted, of "Suc b" i] i(1) by simp
  moreover have "framenr (ms ! b) < framenr (ms ! Suc b)"
    using frames_strict_mono [OF sorted, of b "Suc b"] ib i(1) by simp
  ultimately have "framenr (ms ! Suc b) = framenr (ms ! i)" using i(2) by simp
  then have "Suc b = i" using frames_inj [OF sorted i(1), of "Suc b"] ib i(1) by simp
  then show ?thesis using i by auto
qed

lemma join_intersection_length_run:
  "j < join_intersection_length src dst a b frame \<Longrightarrow>
   a + j < length src \<and> b + j < length dst
   \<and> framenr (src ! (a + j)) = frame + int j \<and> framenr (dst ! (b + j)) = frame + int j
   \<and> MARKER_DISABLED \<notin> flag (src ! (a + j)) \<and> MARKER_DISABLED \<notin> flag (dst ! (b + j))"
proof (induction src dst a b frame arbitrary: j rule: join_intersection_length.induct)
  case (1 src dst a b frame)
  from "1.prems" have c: "a < length src" "b < length dst"
    "MARKER_DISABLED \<notin> flag (src ! a)" "MARKER_DISABLED \<notin> flag (dst ! b)"
    "framenr (src ! a) = frame" "framenr (dst ! b) = frame"
    by (subst (asm) join_intersection_length.simps, auto split: if_splits)+
  have len: "join_intersection_length src dst a b frame
      = 1 + join_intersection_length src dst (a + 1) (b + 1) (frame + 1)"
    using c by (subst join_intersection_length.simps) simp
  show ?case
  proof (cases j)
    case 0
    then show ?thesis using c by simp
  next
    case (Suc k)
    then have "k < join_intersection_length src dst (a + 1) (b + 1) (frame + 1)"
      using "1.prems" len by simp
    then show ?thesis
      using "1.IH" [of k] c Suc by simp
  qed
qed

lemma join_intersection_length_stop:
  "\<not> (a + join_intersection_length src dst a b frame < length src
      \<and> b + join_intersection_length src dst a b frame < length dst
      \<and> MARKER_DISABLED \<notin> flag (src ! (a + join_intersection_length src dst a b frame))
      \<and> MARKER_DISABLED \<notin> flag (dst ! (b + join_intersection_length src dst a b frame))
      \<and> framenr (src ! (a + join_intersection_length src dst a b frame))
          = frame + int (join_intersection_length src dst a b frame)
      \<and> framenr (dst ! (b + join_intersection_length src dst a b frame))
          = frame + int (join_intersection_length src dst a b frame))"
proof (induction src dst a b frame rule: join_intersection_length.induct)
  case (1 src dst a b frame)
  show ?case
  proof (cases "a < length src \<and> b < length dst \<and> MARKER_DISABLED \<notin> flag (src ! a)
      \<and> MARKER_DISABLED \<notin> flag (dst ! b) \<and> framenr (src ! a) = frame \<and> framenr (dst ! b) = frame")
    case True
    then have len: "join_intersection_length src dst a b frame
        = 1 + join_intersection_length src dst (a + 1) (b + 1) (frame + 1)"
      by (subst join_intersection_length.simps) simp
    show ?thesis
      using "1.IH" True unfolding len by (simp add: add.assoc)
  next
    case False
    then have "join_intersection_length src dst a b frame = 0"
      by (subst join_intersection_length.simps) auto
    then show ?thesis using False by auto
  qed
qed

lemma run_before_eq:
  "(\<forall>k<d. enabled_at src (f - 1 - int k) \<and> enabled_at dst (f - 1 - int k)) \<Longrightarrow>
   \<not> (enabled_at src (f - 1 - int d) \<and> enabled_at dst (f - 1 - int d)) \<Longrightarrow> d \<le> n \<Longrightarrow>
   run_before src dst f n = d"
proof (induction d arbitrary: f n)
  case 0
  then show ?case by (cases n) auto
next
  case (Suc d)
  then obtain n' where n: "n = Suc n'" "d \<le> n'" by (cases n) auto
  have first: "enabled_at src (f - 1) \<and> enabled_at dst (f - 1)" using Suc.prems(1) by force
  have "\<forall>k<d. enabled_at src (f - 1 - 1 - int k) \<and> enabled_at dst (f - 1 - 1 - int k)"
  proof (intro allI impI)
    fix k assume "k < d"
    then have "enabled_at src (f - 1 - int (Suc k)) \<and> enabled_at dst (f - 1 - int (Suc k))"
      using Suc.prems(1) by blast
    then show "enabled_at src (f - 1 - 1 - int k) \<and> enabled_at dst (f - 1 - 1 - int k)"
      by (simp add: algebra_simps)
  qed
  moreover have "\<not> (enabled_at src (f - 1 - 1 - int d) \<and> enabled_at dst (f - 1 - 1 - int d))"
    using Suc.prems(2) by (simp add: algebra_simps)
  ultimately have "run_before src dst (f - 1) n' = d" using Suc.IH n(2) by blast
  then show ?case using first n(1) by simp
qed

lemma run_after_eq:
  "(\<forall>k<d. enabled_at src (f + 1 + int k) \<and> enabled_at dst (f + 1 + int k)) \<Longrightarrow>
   \<not> (enabled_at src (f + 1 + int d) \<and> enabled_at dst (f + 1 + int d)) \<Longrightarrow> d \<le> n \<Longrightarrow>
   run_after src dst f n = d"
proof (induction d arbitrary: f n)
  case 0
  then show ?case by (cases n) auto
next
  case (Suc d)
  then obtain n' where n: "n = Suc n'" "d \<le> n'" by (cases n) auto
  have first: "enabled_at src (f + 1) \<and> enabled_at dst (f + 1)" using Suc.prems(1) by force
  have "\<forall>k<d. enabled_at src (f + 1 + 1 + int k) \<and> enabled_at dst (f + 1 + 1 + int k)"
  proof (intro allI impI)
    fix k assume "k < d"
    then have "enabled_at src (f + 1 + int (Suc k)) \<and> enabled_at dst (f + 1 + int (Suc k))"
      using Suc.prems(1) by blast
    then show "enabled_at src (f + 1 + 1 + int k) \<and> enabled_at dst (f + 1 + 1 + int k)"
      by (simp add: algebra_simps)
  qed
  moreover have "\<not> (enabled_at src (f + 1 + 1 + int d) \<and> enabled_at dst (f + 1 + 1 + int d))"
    using Suc.prems(2) by (simp add: algebra_simps)
  ultimately have "run_after src dst (f + 1) n' = d" using Suc.IH n(2) by blast
  then show ?case using first n(1) by simp
qed


lemma join_pending_src_step:
  assumes a: "a < length src"
  shows "join_pending src dst a b f \<longleftrightarrow> framenr (src ! a) = f \<or> join_pending src dst (Suc a) b f"
proof -
  have "(\<exists>i. a \<le> i \<and> i < length src \<and> framenr (src ! i) = f)
      \<longleftrightarrow> framenr (src ! a) = f \<or> (\<exists>i. Suc a \<le> i \<and> i < length src \<and> framenr (src ! i) = f)"
  proof
    assume "\<exists>i. a \<le> i \<and> i < length src \<and> framenr (src ! i) = f"
    then obtain i where i: "a \<le> i" "i < length src" "framenr (src ! i) = f" by blast
    show "framenr (src ! a) = f \<or> (\<exists>i. Suc a \<le> i \<and> i < length src \<and> framenr (src ! i) = f)"
    proof (cases "i = a")
      case True
      then show ?thesis using i by simp
    next
      case False
      then have "Suc a \<le> i" using i(1) by simp
      then show ?thesis using i by blast
    qed
  next
    assume "framenr (src ! a) = f \<or> (\<exists>i. Suc a \<le> i \<and> i < length src \<and> framenr (src ! i) = f)"
    then show "\<exists>i. a \<le> i \<and> i < length src \<and> framenr (src ! i) = f"
    proof
      assume "framenr (src ! a) = f"
      then show ?thesis using a by blast
    next
      assume "\<exists>i. Suc a \<le> i \<and> i < length src \<and> framenr (src ! i) = f"
      then obtain i where "Suc a \<le> i" "i < length src" "framenr (src ! i) = f" by blast
      then have "a \<le> i \<and> i < length src \<and> framenr (src ! i) = f" by simp
      then show ?thesis by blast
    qed
  qed
  then show ?thesis unfolding join_pending_def by blast
qed

lemma join_pending_dst_step:
  assumes b: "b < length dst"
  shows "join_pending src dst a b f \<longleftrightarrow> framenr (dst ! b) = f \<or> join_pending src dst a (Suc b) f"
proof -
  have "(\<exists>i. b \<le> i \<and> i < length dst \<and> framenr (dst ! i) = f)
      \<longleftrightarrow> framenr (dst ! b) = f \<or> (\<exists>i. Suc b \<le> i \<and> i < length dst \<and> framenr (dst ! i) = f)"
  proof
    assume "\<exists>i. b \<le> i \<and> i < length dst \<and> framenr (dst ! i) = f"
    then obtain i where i: "b \<le> i" "i < length dst" "framenr (dst ! i) = f" by blast
    show "framenr (dst ! b) = f \<or> (\<exists>i. Suc b \<le> i \<and> i < length dst \<and> framenr (dst ! i) = f)"
    proof (cases "i = b")
      case True
      then show ?thesis using i by simp
    next
      case False
      then have "Suc b \<le> i" using i(1) by simp
      then show ?thesis using i by blast
    qed
  next
    assume "framenr (dst ! b) = f \<or> (\<exists>i. Suc b \<le> i \<and> i < length dst \<and> framenr (dst ! i) = f)"
    then show "\<exists>i. b \<le> i \<and> i < length dst \<and> framenr (dst ! i) = f"
    proof
      assume "framenr (dst ! b) = f"
      then show ?thesis using b by blast
    next
      assume "\<exists>i. Suc b \<le> i \<and> i < length dst \<and> framenr (dst ! i) = f"
      then obtain i where "Suc b \<le> i" "i < length dst" "framenr (dst ! i) = f" by blast
      then have "b \<le> i \<and> i < length dst \<and> framenr (dst ! i) = f" by simp
      then show ?thesis by blast
    qed
  qed
  then show ?thesis unfolding join_pending_def by blast
qed

lemma join_pending_empty:
  "\<not> a < length src \<Longrightarrow> \<not> b < length dst \<Longrightarrow> \<not> join_pending src dst a b f"
  unfolding join_pending_def by auto

lemma join_pending_run:
  assumes run: "\<forall>k<len. framenr (src ! (a + k)) = F + int k \<and> framenr (dst ! (b + k)) = F + int k"
    and f: "\<not> (F \<le> f \<and> f < F + int len)"
  shows "join_pending src dst a b f \<longleftrightarrow> join_pending src dst (a + len) (b + len) f"
proof
  assume "join_pending src dst a b f"
  then consider i where "a \<le> i" "i < length src" "framenr (src ! i) = f"
    | i where "b \<le> i" "i < length dst" "framenr (dst ! i) = f"
    unfolding join_pending_def by blast
  then show "join_pending src dst (a + len) (b + len) f"
  proof cases
    case 1
    have "\<not> i < a + len"
    proof
      assume "i < a + len"
      then have "i - a < len" "a + (i - a) = i" using 1(1) by auto
      then have "framenr (src ! i) = F + int (i - a)" using run by metis
      then show False using f 1(3) \<open>i - a < len\<close> by auto
    qed
    then have "a + len \<le> i" by simp
    then show ?thesis unfolding join_pending_def using 1 by blast
  next
    case 2
    have "\<not> i < b + len"
    proof
      assume "i < b + len"
      then have "i - b < len" "b + (i - b) = i" using 2(1) by auto
      then have "framenr (dst ! i) = F + int (i - b)" using run by metis
      then show False using f 2(3) \<open>i - b < len\<close> by auto
    qed
    then have "b + len \<le> i" by simp
    then show ?thesis unfolding join_pending_def using 2 by blast
  qed
next
  assume "join_pending src dst (a + len) (b + len) f"
  then consider i where "a + len \<le> i" "i < length src" "framenr (src ! i) = f"
    | i where "b + len \<le> i" "i < length dst" "framenr (dst ! i) = f"
    unfolding join_pending_def by blast
  then show "join_pending src dst a b f"
  proof cases
    case 1
    then have "a \<le> i \<and> i < length src \<and> framenr (src ! i) = f" by simp
    then show ?thesis unfolding join_pending_def by blast
  next
    case 2
    then have "b \<le> i \<and> i < length dst \<and> framenr (dst ! i) = f" by simp
    then show ?thesis unfolding join_pending_def by blast
  qed
qed

lemma join_pending_lower:
  assumes S: "sorted_wrt (<) (map framenr src)" and D: "sorted_wrt (<) (map framenr dst)"
    and p: "join_pending src dst a b f"
    and la: "a < length src \<Longrightarrow> lo < framenr (src ! a)"
    and lb: "b < length dst \<Longrightarrow> lo < framenr (dst ! b)"
  shows "lo < f"
proof -
  from p consider i where "a \<le> i" "i < length src" "framenr (src ! i) = f"
    | i where "b \<le> i" "i < length dst" "framenr (dst ! i) = f"
    unfolding join_pending_def by blast
  then show ?thesis
  proof cases
    case 1
    then show ?thesis using frames_mono [OF S, of a i] la by auto
  next
    case 2
    then show ?thesis using frames_mono [OF D, of b i] lb by auto
  qed
qed

lemma join_inv_bounds:
  "join_inv src dst a b \<Longrightarrow> a \<le> length src \<and> b \<le> length dst"
  by (simp add: join_inv_def)

lemma join_inv_src_before:
  "join_inv src dst a b \<Longrightarrow> 0 < a \<Longrightarrow> b < length dst \<Longrightarrow> framenr (src ! (a - 1)) < framenr (dst ! b)"
  by (simp add: join_inv_def)

lemma join_inv_dst_before:
  "join_inv src dst a b \<Longrightarrow> 0 < b \<Longrightarrow> a < length src \<Longrightarrow> framenr (dst ! (b - 1)) < framenr (src ! a)"
  by (simp add: join_inv_def)

text \<open>The invariant is kept by every branch of the loop.\<close>

lemma join_inv_src_step:
  assumes S: "sorted_wrt (<) (map framenr src)"
    and inv: "join_inv src dst a b" and a: "a < length src"
    and c: "b \<ge> length dst \<or> framenr (src ! a) < framenr (dst ! b)"
  shows "join_inv src dst (a + 1) b"
proof -
  have "Suc a < length src \<Longrightarrow> framenr (src ! a) < framenr (src ! Suc a)"
    using frames_strict_mono [OF S, of a "Suc a"] by simp
  then show ?thesis
    using inv a c unfolding join_inv_def by auto
qed

lemma join_inv_dst_step:
  assumes D: "sorted_wrt (<) (map framenr dst)"
    and inv: "join_inv src dst a b" and b: "b < length dst"
    and c: "a \<ge> length src \<or> framenr (dst ! b) < framenr (src ! a)"
  shows "join_inv src dst a (b + 1)"
proof -
  have "Suc b < length dst \<Longrightarrow> framenr (dst ! b) < framenr (dst ! Suc b)"
    using frames_strict_mono [OF D, of b "Suc b"] by simp
  then show ?thesis
    using inv b c unfolding join_inv_def by auto
qed

lemma join_inv_both_step:
  assumes S: "sorted_wrt (<) (map framenr src)" and D: "sorted_wrt (<) (map framenr dst)"
    and inv: "join_inv src dst a b" and a: "a < length src" and b: "b < length dst"
    and eq: "framenr (src ! a) = framenr (dst ! b)"
    and dis: "MARKER_DISABLED \<in> flag (src ! a) \<or> MARKER_DISABLED \<in> flag (dst ! b)"
  shows "join_inv src dst (a + 1) (b + 1)"
proof -
  have "Suc a < length src \<Longrightarrow> framenr (src ! a) < framenr (src ! Suc a)"
    using frames_strict_mono [OF S, of a "Suc a"] by simp
  moreover have "Suc b < length dst \<Longrightarrow> framenr (dst ! b) < framenr (dst ! Suc b)"
    using frames_strict_mono [OF D, of b "Suc b"] by simp
  ultimately show ?thesis
    using inv a b eq dis unfolding join_inv_def by auto
qed

lemma join_inv_blend_step:
  assumes S: "sorted_wrt (<) (map framenr src)" and D: "sorted_wrt (<) (map framenr dst)"
    and inv: "join_inv src dst a b"
    and len: "0 < join_intersection_length src dst a b F"
  shows "join_inv src dst (a + join_intersection_length src dst a b F)
           (b + join_intersection_length src dst a b F)"
proof -
  define len where "len = join_intersection_length src dst a b F"
  have pos: "0 < len" using len unfolding len_def .
  have run: "\<And>k. k < len \<Longrightarrow> a + k < length src \<and> b + k < length dst
      \<and> framenr (src ! (a + k)) = F + int k \<and> framenr (dst ! (b + k)) = F + int k
      \<and> MARKER_DISABLED \<notin> flag (src ! (a + k)) \<and> MARKER_DISABLED \<notin> flag (dst ! (b + k))"
    using join_intersection_length_run unfolding len_def by blast
  have last: "a + (len - 1) < length src" "b + (len - 1) < length dst"
    "framenr (src ! (a + (len - 1))) = F + int (len - 1)"
    "framenr (dst ! (b + (len - 1))) = F + int (len - 1)"
    using run [of "len - 1"] pos by auto
  have idx: "a + len - 1 = a + (len - 1)" "b + len - 1 = b + (len - 1)" using pos by auto
  have stop: "\<not> (a + len < length src \<and> b + len < length dst
      \<and> MARKER_DISABLED \<notin> flag (src ! (a + len)) \<and> MARKER_DISABLED \<notin> flag (dst ! (b + len))
      \<and> framenr (src ! (a + len)) = F + int len \<and> framenr (dst ! (b + len)) = F + int len)"
    using join_intersection_length_stop [of a src dst b F] unfolding len_def by blast
  have sa: "a + len < length src \<Longrightarrow> framenr (src ! (a + (len - 1))) < framenr (src ! (a + len))"
    using frames_strict_mono [OF S, of "a + (len - 1)" "a + len"] pos by simp
  have sb: "b + len < length dst \<Longrightarrow> framenr (dst ! (b + (len - 1))) < framenr (dst ! (b + len))"
    using frames_strict_mono [OF D, of "b + (len - 1)" "b + len"] pos by simp
  have le: "a + len \<le> length src" "b + len \<le> length dst" using last pos by auto
  have c3: "b + len < length dst \<Longrightarrow> framenr (src ! (a + len - 1)) < framenr (dst ! (b + len))"
    using sb last unfolding idx by simp
  have c4: "a + len < length src \<Longrightarrow> framenr (dst ! (b + len - 1)) < framenr (src ! (a + len))"
    using sa last unfolding idx by simp
  have c5: "\<not> (a + len < length src \<and> b + len < length dst
      \<and> framenr (src ! (a + len)) = framenr (dst ! (b + len))
      \<and> framenr (src ! (a + len - 1)) = framenr (src ! (a + len)) - 1
      \<and> framenr (dst ! (b + len - 1)) = framenr (dst ! (b + len)) - 1
      \<and> MARKER_DISABLED \<notin> flag (src ! (a + len)) \<and> MARKER_DISABLED \<notin> flag (dst ! (b + len)))"
  proof
    assume H: "a + len < length src \<and> b + len < length dst
      \<and> framenr (src ! (a + len)) = framenr (dst ! (b + len))
      \<and> framenr (src ! (a + len - 1)) = framenr (src ! (a + len)) - 1
      \<and> framenr (dst ! (b + len - 1)) = framenr (dst ! (b + len)) - 1
      \<and> MARKER_DISABLED \<notin> flag (src ! (a + len)) \<and> MARKER_DISABLED \<notin> flag (dst ! (b + len))"
    then have "framenr (src ! (a + len)) = F + int len" "framenr (dst ! (b + len)) = F + int len"
      using last pos unfolding idx by auto
    then show False using stop H by blast
  qed
  show ?thesis
    unfolding join_inv_def len_def [symmetric] using le c3 c4 c5 by blast
qed

text \<open>What the specification gives at the frame of the marker that a branch writes.\<close>

lemma joined_marker_src_only:
  assumes S: "sorted_wrt (<) (map framenr src)" and D: "sorted_wrt (<) (map framenr dst)"
    and inv: "join_inv src dst a b" and a: "a < length src"
    and c: "b \<ge> length dst \<or> framenr (src ! a) < framenr (dst ! b)"
  shows "joined_marker src dst (framenr (src ! a)) = Some (src ! a)"
proof -
  have "\<forall>j<length dst. framenr (dst ! j) \<noteq> framenr (src ! a)"
  proof (intro allI impI)
    fix j assume j: "j < length dst"
    show "framenr (dst ! j) \<noteq> framenr (src ! a)"
    proof (cases "j < b")
      case True
      then have "j \<le> b - 1" "b - 1 < length dst" "0 < b"
        using join_inv_bounds [OF inv] by auto
      then have "framenr (dst ! j) \<le> framenr (dst ! (b - 1))"
        using frames_mono [OF D, of j "b - 1"] by simp
      moreover have "framenr (dst ! (b - 1)) < framenr (src ! a)"
        using join_inv_dst_before [OF inv \<open>0 < b\<close> a] .
      ultimately show ?thesis by simp
    next
      case False
      then have "framenr (dst ! b) \<le> framenr (dst ! j)"
        using frames_mono [OF D, of b j] j by auto
      moreover have "framenr (src ! a) < framenr (dst ! b)" using c False j by auto
      ultimately show ?thesis by simp
    qed
  qed
  then have "marker_at dst (framenr (src ! a)) = None" by (rule marker_at_None)
  then show ?thesis
    unfolding joined_marker_def by (simp add: marker_at_nth [OF S a])
qed

lemma joined_marker_dst_only:
  assumes S: "sorted_wrt (<) (map framenr src)" and D: "sorted_wrt (<) (map framenr dst)"
    and inv: "join_inv src dst a b" and b: "b < length dst"
    and c: "a \<ge> length src \<or> framenr (dst ! b) < framenr (src ! a)"
  shows "joined_marker src dst (framenr (dst ! b)) = Some (dst ! b)"
proof -
  have "\<forall>j<length src. framenr (src ! j) \<noteq> framenr (dst ! b)"
  proof (intro allI impI)
    fix j assume j: "j < length src"
    show "framenr (src ! j) \<noteq> framenr (dst ! b)"
    proof (cases "j < a")
      case True
      then have "j \<le> a - 1" "a - 1 < length src" "0 < a"
        using join_inv_bounds [OF inv] by auto
      then have "framenr (src ! j) \<le> framenr (src ! (a - 1))"
        using frames_mono [OF S, of j "a - 1"] by simp
      moreover have "framenr (src ! (a - 1)) < framenr (dst ! b)"
        using join_inv_src_before [OF inv \<open>0 < a\<close> b] .
      ultimately show ?thesis by simp
    next
      case False
      then have "framenr (src ! a) \<le> framenr (src ! j)"
        using frames_mono [OF S, of a j] j by auto
      moreover have "framenr (dst ! b) < framenr (src ! a)" using c False j by auto
      ultimately show ?thesis by simp
    qed
  qed
  then have "marker_at src (framenr (dst ! b)) = None" by (rule marker_at_None)
  then show ?thesis
    unfolding joined_marker_def by (simp add: marker_at_nth [OF D b])
qed

lemma joined_marker_both:
  assumes S: "sorted_wrt (<) (map framenr src)" and D: "sorted_wrt (<) (map framenr dst)"
    and a: "a < length src" and b: "b < length dst"
    and eq: "framenr (src ! a) = f" "framenr (dst ! b) = f"
  shows "joined_marker src dst f =
     (if MARKER_DISABLED \<in> flag (src ! a) then Some (dst ! b)
      else if MARKER_DISABLED \<in> flag (dst ! b) then Some (src ! a)
      else Some ((dst ! b)\<lparr>pos := interp_v2_v2v2 (pos (dst ! b)) (pos (src ! a))
                                  (joined_factor src dst f)\<rparr>))"
proof -
  have "marker_at src f = Some (src ! a)" "marker_at dst f = Some (dst ! b)"
    using marker_at_nth [OF S a] marker_at_nth [OF D b] eq by auto
  then show ?thesis unfolding joined_marker_def by simp
qed

lemma joined_factor_run:
  assumes S: "sorted_wrt (<) (map framenr src)" and D: "sorted_wrt (<) (map framenr dst)"
    and inv: "join_inv src dst a b" and a: "a < length src" and b: "b < length dst"
    and F: "framenr (src ! a) = F" "framenr (dst ! b) = F"
    and j: "j < join_intersection_length src dst a b F"
  shows "joined_factor src dst (F + int j)
         = join_blend_factor (join_intersection_length src dst a b F) (join_inverse dst b F) j"
proof -
  define len where "len = join_intersection_length src dst a b F"
  have jl: "j < len" using j unfolding len_def .
  have run: "\<And>k. k < len \<Longrightarrow> a + k < length src \<and> b + k < length dst
      \<and> framenr (src ! (a + k)) = F + int k \<and> framenr (dst ! (b + k)) = F + int k
      \<and> MARKER_DISABLED \<notin> flag (src ! (a + k)) \<and> MARKER_DISABLED \<notin> flag (dst ! (b + k))"
    using join_intersection_length_run unfolding len_def by blast
  have both: "enabled_at src (F + int k) \<and> enabled_at dst (F + int k)" if "k < len" for k
    using run [OF that] enabled_at_nth [OF S, of "a + k"] enabled_at_nth [OF D, of "b + k"]
    by auto
  have en0: "MARKER_DISABLED \<notin> flag (src ! a)" "MARKER_DISABLED \<notin> flag (dst ! b)"
    using run [of 0] jl by auto
  have before: "\<not> (enabled_at src (F - 1) \<and> enabled_at dst (F - 1))"
  proof
    assume H: "enabled_at src (F - 1) \<and> enabled_at dst (F - 1)"
    have "0 < a \<and> framenr (src ! (a - 1)) = framenr (src ! a) - 1
        \<and> MARKER_DISABLED \<notin> flag (src ! (a - 1))"
      using enabled_before_index [OF S a] H F by simp
    moreover have "0 < b \<and> framenr (dst ! (b - 1)) = framenr (dst ! b) - 1
        \<and> MARKER_DISABLED \<notin> flag (dst ! (b - 1))"
      using enabled_before_index [OF D b] H F by simp
    ultimately show False
      using inv a b F en0 unfolding join_inv_def by simp
  qed
  have last: "a + (len - 1) < length src" "b + (len - 1) < length dst"
    "framenr (src ! (a + (len - 1))) = F + int (len - 1)"
    "framenr (dst ! (b + (len - 1))) = F + int (len - 1)"
    using run [of "len - 1"] jl by auto
  have after: "\<not> (enabled_at src (F + int len) \<and> enabled_at dst (F + int len))"
  proof
    assume H: "enabled_at src (F + int len) \<and> enabled_at dst (F + int len)"
    have e: "F + int (len - 1) + 1 = F + int len" "Suc (a + (len - 1)) = a + len"
      "Suc (b + (len - 1)) = b + len" using jl by auto
    have "a + len < length src \<and> framenr (src ! (a + len)) = F + int len
        \<and> MARKER_DISABLED \<notin> flag (src ! (a + len))"
      using enabled_after_index [OF S last(1)] H unfolding last(3) e by simp
    moreover have "b + len < length dst \<and> framenr (dst ! (b + len)) = F + int len
        \<and> MARKER_DISABLED \<notin> flag (dst ! (b + len))"
      using enabled_after_index [OF D last(2)] H unfolding last(4) e by simp
    ultimately show False
      using join_intersection_length_stop [of a src dst b F] unfolding len_def by blast
  qed
  have rb: "run_before src dst (F + int j) (length dst) = j"
  proof (rule run_before_eq)
    show "\<forall>k<j. enabled_at src (F + int j - 1 - int k) \<and> enabled_at dst (F + int j - 1 - int k)"
    proof (intro allI impI)
      fix k assume k: "k < j"
      then have e: "F + int j - 1 - int k = F + int (j - 1 - k)" by auto
      have "j - 1 - k < len" using k jl by auto
      then show "enabled_at src (F + int j - 1 - int k) \<and> enabled_at dst (F + int j - 1 - int k)"
        unfolding e by (rule both)
    qed
    have e: "F + int j - 1 - int j = F - 1" by simp
    show "\<not> (enabled_at src (F + int j - 1 - int j) \<and> enabled_at dst (F + int j - 1 - int j))"
      unfolding e by (rule before)
    show "j \<le> length dst" using run [OF jl] by simp
  qed
  have ra: "run_after src dst (F + int j) (length dst) = len - 1 - j"
  proof (rule run_after_eq)
    show "\<forall>k<len - 1 - j. enabled_at src (F + int j + 1 + int k) \<and> enabled_at dst (F + int j + 1 + int k)"
    proof (intro allI impI)
      fix k assume k: "k < len - 1 - j"
      then have e: "F + int j + 1 + int k = F + int (j + 1 + k)" by auto
      have "j + 1 + k < len" using k by auto
      then show "enabled_at src (F + int j + 1 + int k) \<and> enabled_at dst (F + int j + 1 + int k)"
        unfolding e by (rule both)
    qed
    have e: "F + int j + 1 + int (len - 1 - j) = F + int len" using jl by auto
    show "\<not> (enabled_at src (F + int j + 1 + int (len - 1 - j))
        \<and> enabled_at dst (F + int j + 1 + int (len - 1 - j)))"
      unfolding e by (rule after)
    show "len - 1 - j \<le> length dst" using last(2) by simp
  qed
  have inv_eq: "enabled_at dst (F - 1) \<longleftrightarrow> \<not> join_inverse dst b F"
  proof
    assume "enabled_at dst (F - 1)"
    then have "0 < b \<and> framenr (dst ! (b - 1)) = framenr (dst ! b) - 1
        \<and> MARKER_DISABLED \<notin> flag (dst ! (b - 1))"
      using enabled_before_index [OF D b] F by simp
    then show "\<not> join_inverse dst b F" unfolding join_inverse_def using F by simp
  next
    assume "\<not> join_inverse dst b F"
    then have n: "0 < b" "MARKER_DISABLED \<notin> flag (dst ! (b - 1))" "framenr (dst ! (b - 1)) = F - 1"
      unfolding join_inverse_def by auto
    then show "enabled_at dst (F - 1)"
      using enabled_at_nth [OF D, of "b - 1"] b by simp
  qed
  have total: "j + 1 + (len - 1 - j) = len" using jl by simp
  have fr: "F + int j - int j - 1 = F - 1" by simp
  have fac: "(if len = 1 then 1 / 2 else real j / real (len - 1))
      = (if len > 1 then 1 / real (len - 1) * real j else 1 / 2)"
    using jl by auto
  show ?thesis
    unfolding joined_factor_def join_blend_factor_def Let_def rb ra total fr fac
      len_def [symmetric] inv_eq
    by simp
qed

lemma marker_at_Cons:
  "marker_at (m # ms) f = (if framenr m = f then Some m else marker_at ms f)"
  unfolding marker_at_def by simp

lemma marker_at_append:
  "marker_at (xs @ ys) f = (case marker_at xs f of None \<Rightarrow> marker_at ys f | Some m \<Rightarrow> Some m)"
  unfolding marker_at_def by (induction xs) auto

lemma marker_at_map_upt:
  assumes fr: "\<forall>k<len. framenr (g k) = F + int k"
  shows "marker_at (map g [0..<len]) f
         = (if F \<le> f \<and> f < F + int len then Some (g (nat (f - F))) else None)"
proof (cases "F \<le> f \<and> f < F + int len")
  case True
  define i where "i = nat (f - F)"
  have i: "i < len" "f = F + int i" using True unfolding i_def by auto
  have "find (\<lambda>m. framenr m = f) (map g [0..<len]) = Some (g i)"
    unfolding find_Some_iff
  proof (intro exI [of _ i] conjI allI impI)
    show "i < length (map g [0..<len])" using i by simp
    show "framenr (map g [0..<len] ! i) = f" using i fr by simp
    show "g i = map g [0..<len] ! i" using i by simp
    fix k assume "k < i"
    then show "framenr (map g [0..<len] ! k) \<noteq> f" using i fr by simp
  qed
  then show ?thesis using True unfolding marker_at_def i_def by simp
next
  case False
  have "\<forall>k<length (map g [0..<len]). framenr (map g [0..<len] ! k) \<noteq> f"
    using False fr by auto
  then show ?thesis using False marker_at_None by simp
qed

lemma marker_at_in_set:
  "m \<in> set ms \<Longrightarrow> marker_at ms (framenr m) \<noteq> None"
  unfolding marker_at_def find_None_iff by blast

text \<open>A step of the loop that writes one marker, and the step that writes a blended run.\<close>

lemma join_emit_one:
  assumes rest: "sorted_wrt (<) (map framenr rest)
      \<and> (\<forall>f. marker_at rest f = (if P' f then J f else None))"
    and lower: "\<And>f. P' f \<Longrightarrow> framenr x < f"
    and pend: "\<And>f. P f \<longleftrightarrow> framenr x = f \<or> P' f"
    and spec: "J (framenr x) = Some x"
  shows "sorted_wrt (<) (map framenr (x # rest))
      \<and> (\<forall>f. marker_at (x # rest) f = (if P f then J f else None))"
proof (intro conjI allI)
  from rest have look: "\<And>f. marker_at rest f = (if P' f then J f else None)" by blast
  have "framenr x < framenr m" if "m \<in> set rest" for m
  proof -
    have "marker_at rest (framenr m) \<noteq> None" using that by (rule marker_at_in_set)
    then have "P' (framenr m)" using look [of "framenr m"] by (cases "P' (framenr m)") auto
    then show ?thesis by (rule lower)
  qed
  then show "sorted_wrt (<) (map framenr (x # rest))" using rest by auto
  fix f
  show "marker_at (x # rest) f = (if P f then J f else None)"
  proof (cases "framenr x = f")
    case True
    then show ?thesis using pend [of f] spec by (simp add: marker_at_Cons)
  next
    case False
    then show ?thesis using pend [of f] look [of f] by (simp add: marker_at_Cons)
  qed
qed

lemma join_emit_run:
  assumes rest: "sorted_wrt (<) (map framenr rest)
      \<and> (\<forall>f. marker_at rest f = (if P' f then J f else None))"
    and fr: "\<And>k. k < len \<Longrightarrow> framenr (g k) = F + int k"
    and lower: "\<And>f. P' f \<Longrightarrow> F + int len \<le> f"
    and pend: "\<And>f. \<not> (F \<le> f \<and> f < F + int len) \<Longrightarrow> P f \<longleftrightarrow> P' f"
    and inrun: "\<And>k. k < len \<Longrightarrow> P (F + int k) \<and> J (F + int k) = Some (g k)"
  shows "sorted_wrt (<) (map framenr (map g [0..<len] @ rest))
      \<and> (\<forall>f. marker_at (map g [0..<len] @ rest) f = (if P f then J f else None))"
proof (intro conjI allI)
  from rest have look: "\<And>f. marker_at rest f = (if P' f then J f else None)" by blast
  have low: "F + int len \<le> framenr m" if "m \<in> set rest" for m
  proof -
    have "marker_at rest (framenr m) \<noteq> None" using that by (rule marker_at_in_set)
    then have "P' (framenr m)" using look [of "framenr m"] by (cases "P' (framenr m)") auto
    then show ?thesis by (rule lower)
  qed
  have "sorted_wrt (<) (map framenr (map g [0..<len]))"
    using fr by (auto simp: sorted_wrt_iff_nth_less)
  moreover have "\<forall>x\<in>set (map g [0..<len]). \<forall>y\<in>set rest. framenr x < framenr y"
  proof (intro ballI)
    fix x y assume "x \<in> set (map g [0..<len])" and y: "y \<in> set rest"
    then obtain k where "k < len" "x = g k" by auto
    then have "framenr x < F + int len" using fr by simp
    then show "framenr x < framenr y" using low [OF y] by simp
  qed
  ultimately show "sorted_wrt (<) (map framenr (map g [0..<len] @ rest))"
    using rest by (simp add: sorted_wrt_append)
  fix f
  have frs: "\<forall>k<len. framenr (g k) = F + int k" using fr by blast
  show "marker_at (map g [0..<len] @ rest) f = (if P f then J f else None)"
  proof (cases "F \<le> f \<and> f < F + int len")
    case True
    define k where "k = nat (f - F)"
    have k: "k < len" "f = F + int k" using True unfolding k_def by auto
    have "marker_at (map g [0..<len]) f = Some (g k)"
      using marker_at_map_upt [OF frs, of f] True unfolding k_def by simp
    then show ?thesis using inrun [OF k(1)] k(2) by (simp add: marker_at_append)
  next
    case False
    have "marker_at (map g [0..<len]) f = None"
      using marker_at_map_upt [OF frs, of f] False by simp
    then show ?thesis using pend [OF False] look [of f] by (simp add: marker_at_append)
  qed
qed

text \<open>
  The loop from any pair of indices at which the invariant holds: it writes the frames in
  rising order, and at each pending frame the marker of the specification.
\<close>

lemma tracks_join_loop_correct:
  "sorted_wrt (<) (map framenr src) \<Longrightarrow> sorted_wrt (<) (map framenr dst) \<Longrightarrow>
   join_inv src dst a b \<Longrightarrow>
   sorted_wrt (<) (map framenr (tracks_join_loop src dst a b))
   \<and> (\<forall>f. marker_at (tracks_join_loop src dst a b) f
          = (if join_pending src dst a b f then joined_marker src dst f else None))"
proof (induction src dst a b rule: tracks_join_loop.induct)
  case (1 src dst a b)
  note S = "1.prems"(1) and D = "1.prems"(2) and inv = "1.prems"(3)
  have sa: "framenr (src ! a) < framenr (src ! Suc a)" if "Suc a < length src"
    using frames_strict_mono [OF S, of a "Suc a"] that by simp
  have sb: "framenr (dst ! b) < framenr (dst ! Suc b)" if "Suc b < length dst"
    using frames_strict_mono [OF D, of b "Suc b"] that by simp
  consider (finished) "\<not> a < length src" "\<not> b < length dst"
    | (src) "a < length src" "length dst \<le> b \<or> framenr (src ! a) < framenr (dst ! b)"
    | (dst) "b < length dst" "length src \<le> a \<or> framenr (dst ! b) < framenr (src ! a)"
    | (src_dis) "a < length src" "b < length dst" "framenr (src ! a) = framenr (dst ! b)"
        "MARKER_DISABLED \<in> flag (src ! a)"
    | (dst_dis) "a < length src" "b < length dst" "framenr (src ! a) = framenr (dst ! b)"
        "MARKER_DISABLED \<notin> flag (src ! a)" "MARKER_DISABLED \<in> flag (dst ! b)"
    | (blend) "a < length src" "b < length dst" "framenr (src ! a) = framenr (dst ! b)"
        "MARKER_DISABLED \<notin> flag (src ! a)" "MARKER_DISABLED \<notin> flag (dst ! b)"
    by (cases "a < length src"; cases "b < length dst";
        cases "framenr (src ! a)" "framenr (dst ! b)" rule: linorder_cases) auto
  then show ?case
  proof cases
    case finished
    then have "tracks_join_loop src dst a b = []"
      by (subst tracks_join_loop.simps) simp
    moreover have "\<not> join_pending src dst a b f" for f
      using finished by (rule join_pending_empty)
    ultimately show ?thesis by (simp add: marker_at_def)
  next
    case src
    have loop: "tracks_join_loop src dst a b = src ! a # tracks_join_loop src dst (a + 1) b"
      using src by (subst tracks_join_loop.simps) auto
    have inv': "join_inv src dst (a + 1) b"
      using join_inv_src_step [OF S inv src(1) src(2)] .
    have rest: "sorted_wrt (<) (map framenr (tracks_join_loop src dst (a + 1) b))
        \<and> (\<forall>f. marker_at (tracks_join_loop src dst (a + 1) b) f
              = (if join_pending src dst (a + 1) b f then joined_marker src dst f else None))"
    proof (cases "length dst \<le> b")
      case True
      then show ?thesis using "1.IH"(1) src(1) S D inv' by simp
    next
      case False
      then show ?thesis using "1.IH"(3) src S D inv' by simp
    qed
    show ?thesis unfolding loop
    proof (rule join_emit_one [OF rest])
      fix f
      assume "join_pending src dst (a + 1) b f"
      then show "framenr (src ! a) < f"
      proof (rule join_pending_lower [OF S D])
        show "framenr (src ! a) < framenr (src ! (a + 1))" if "a + 1 < length src"
          using sa that by simp
        show "framenr (src ! a) < framenr (dst ! b)" if "b < length dst"
          using src(2) that by simp
      qed
    next
      fix f
      show "join_pending src dst a b f \<longleftrightarrow> framenr (src ! a) = f \<or> join_pending src dst (a + 1) b f"
        using join_pending_src_step [OF src(1), of dst b f] by simp
    next
      show "joined_marker src dst (framenr (src ! a)) = Some (src ! a)"
        using joined_marker_src_only [OF S D inv src(1) src(2)] .
    qed
  next
    case dst
    have loop: "tracks_join_loop src dst a b = dst ! b # tracks_join_loop src dst a (b + 1)"
      using dst by (subst tracks_join_loop.simps) auto
    have inv': "join_inv src dst a (b + 1)"
      using join_inv_dst_step [OF D inv dst(1) dst(2)] .
    have rest: "sorted_wrt (<) (map framenr (tracks_join_loop src dst a (b + 1)))
        \<and> (\<forall>f. marker_at (tracks_join_loop src dst a (b + 1)) f
              = (if join_pending src dst a (b + 1) f then joined_marker src dst f else None))"
    proof (cases "length src \<le> a")
      case True
      then show ?thesis using "1.IH"(2) dst(1) S D inv' by simp
    next
      case False
      then show ?thesis using "1.IH"(4) dst S D inv' by simp
    qed
    show ?thesis unfolding loop
    proof (rule join_emit_one [OF rest])
      fix f
      assume "join_pending src dst a (b + 1) f"
      then show "framenr (dst ! b) < f"
      proof (rule join_pending_lower [OF S D])
        show "framenr (dst ! b) < framenr (dst ! (b + 1))" if "b + 1 < length dst"
          using sb that by simp
        show "framenr (dst ! b) < framenr (src ! a)" if "a < length src"
          using dst(2) that by simp
      qed
    next
      fix f
      show "join_pending src dst a b f \<longleftrightarrow> framenr (dst ! b) = f \<or> join_pending src dst a (b + 1) f"
        using join_pending_dst_step [OF dst(1), of src a f] by simp
    next
      show "joined_marker src dst (framenr (dst ! b)) = Some (dst ! b)"
        using joined_marker_dst_only [OF S D inv dst(1) dst(2)] .
    qed
  next
    case src_dis
    have loop: "tracks_join_loop src dst a b = dst ! b # tracks_join_loop src dst (a + 1) (b + 1)"
      using src_dis by (subst tracks_join_loop.simps) simp
    have inv': "join_inv src dst (a + 1) (b + 1)"
      using join_inv_both_step [OF S D inv src_dis(1,2,3)] src_dis(4) by simp
    have rest: "sorted_wrt (<) (map framenr (tracks_join_loop src dst (a + 1) (b + 1)))
        \<and> (\<forall>f. marker_at (tracks_join_loop src dst (a + 1) (b + 1)) f
              = (if join_pending src dst (a + 1) (b + 1) f then joined_marker src dst f else None))"
      using "1.IH"(7) src_dis S D inv' by simp
    show ?thesis unfolding loop
    proof (rule join_emit_one [OF rest])
      fix f
      assume "join_pending src dst (a + 1) (b + 1) f"
      then show "framenr (dst ! b) < f"
      proof (rule join_pending_lower [OF S D])
        show "framenr (dst ! b) < framenr (src ! (a + 1))" if "a + 1 < length src"
          using sa that src_dis(3) by simp
        show "framenr (dst ! b) < framenr (dst ! (b + 1))" if "b + 1 < length dst"
          using sb that by simp
      qed
    next
      fix f
      show "join_pending src dst a b f
          \<longleftrightarrow> framenr (dst ! b) = f \<or> join_pending src dst (a + 1) (b + 1) f"
        using join_pending_src_step [OF src_dis(1), of dst b f]
          join_pending_dst_step [OF src_dis(2), of src "Suc a" f] src_dis(3) by auto
    next
      show "joined_marker src dst (framenr (dst ! b)) = Some (dst ! b)"
        using joined_marker_both [OF S D src_dis(1,2) src_dis(3) refl] src_dis(4) by simp
    qed
  next
    case dst_dis
    have loop: "tracks_join_loop src dst a b = src ! a # tracks_join_loop src dst (a + 1) (b + 1)"
      using dst_dis by (subst tracks_join_loop.simps) simp
    have inv': "join_inv src dst (a + 1) (b + 1)"
      using join_inv_both_step [OF S D inv dst_dis(1,2,3)] dst_dis(5) by simp
    have rest: "sorted_wrt (<) (map framenr (tracks_join_loop src dst (a + 1) (b + 1)))
        \<and> (\<forall>f. marker_at (tracks_join_loop src dst (a + 1) (b + 1)) f
              = (if join_pending src dst (a + 1) (b + 1) f then joined_marker src dst f else None))"
      using "1.IH"(6) dst_dis S D inv' by simp
    show ?thesis unfolding loop
    proof (rule join_emit_one [OF rest])
      fix f
      assume "join_pending src dst (a + 1) (b + 1) f"
      then show "framenr (src ! a) < f"
      proof (rule join_pending_lower [OF S D])
        show "framenr (src ! a) < framenr (src ! (a + 1))" if "a + 1 < length src"
          using sa that by simp
        show "framenr (src ! a) < framenr (dst ! (b + 1))" if "b + 1 < length dst"
          using sb that dst_dis(3) by simp
      qed
    next
      fix f
      show "join_pending src dst a b f
          \<longleftrightarrow> framenr (src ! a) = f \<or> join_pending src dst (a + 1) (b + 1) f"
        using join_pending_src_step [OF dst_dis(1), of dst b f]
          join_pending_dst_step [OF dst_dis(2), of src "Suc a" f] dst_dis(3) by auto
    next
      show "joined_marker src dst (framenr (src ! a)) = Some (src ! a)"
        using joined_marker_both [OF S D dst_dis(1,2) refl dst_dis(3) [symmetric]] dst_dis(4,5)
        by simp
    qed
  next
    case blend
    define F where "F = framenr (src ! a)"
    define len where "len = join_intersection_length src dst a b F"
    define inverted where "inverted = join_inverse dst b F"
    define g where "g = (\<lambda>j. (dst ! (b + j))\<lparr>pos := interp_v2_v2v2 (pos (dst ! (b + j)))
        (pos (src ! (a + j))) (join_blend_factor len inverted j)\<rparr>)"
    have Fa: "framenr (src ! a) = F" and Fb: "framenr (dst ! b) = F"
      using blend(3) unfolding F_def by simp_all
    have pos: "0 < len"
      unfolding len_def using blend Fa Fb by (subst join_intersection_length.simps) simp
    have run: "\<And>k. k < len \<Longrightarrow> a + k < length src \<and> b + k < length dst
        \<and> framenr (src ! (a + k)) = F + int k \<and> framenr (dst ! (b + k)) = F + int k
        \<and> MARKER_DISABLED \<notin> flag (src ! (a + k)) \<and> MARKER_DISABLED \<notin> flag (dst ! (b + k))"
      using join_intersection_length_run unfolding len_def by blast
    have loop: "tracks_join_loop src dst a b
        = map g [0..<len] @ tracks_join_loop src dst (a + len) (b + len)"
      unfolding g_def len_def inverted_def F_def join_blend_def [symmetric]
      using blend by (subst tracks_join_loop.simps) simp
    have inv': "join_inv src dst (a + len) (b + len)"
      using join_inv_blend_step [OF S D inv, of F] pos unfolding len_def by simp
    have rest: "sorted_wrt (<) (map framenr (tracks_join_loop src dst (a + len) (b + len)))
        \<and> (\<forall>f. marker_at (tracks_join_loop src dst (a + len) (b + len)) f
              = (if join_pending src dst (a + len) (b + len) f then joined_marker src dst f else None))"
      using "1.IH"(5) blend S D inv' unfolding len_def F_def by simp
    have last: "a + (len - 1) < length src" "b + (len - 1) < length dst"
      "framenr (src ! (a + (len - 1))) = F + int (len - 1)"
      "framenr (dst ! (b + (len - 1))) = F + int (len - 1)"
      using run [of "len - 1"] pos by auto
    show ?thesis unfolding loop
    proof (rule join_emit_run [OF rest, where F = F])
      fix k assume "k < len"
      then show "framenr (g k) = F + int k" using run [of k] unfolding g_def by simp
    next
      fix f
      assume "join_pending src dst (a + len) (b + len) f"
      then have "F + int len - 1 < f"
      proof (rule join_pending_lower [OF S D])
        assume "a + len < length src"
        then have "framenr (src ! (a + (len - 1))) < framenr (src ! (a + len))"
          using frames_strict_mono [OF S, of "a + (len - 1)" "a + len"] pos by simp
        then show "F + int len - 1 < framenr (src ! (a + len))" using last(3) pos by simp
      next
        assume "b + len < length dst"
        then have "framenr (dst ! (b + (len - 1))) < framenr (dst ! (b + len))"
          using frames_strict_mono [OF D, of "b + (len - 1)" "b + len"] pos by simp
        then show "F + int len - 1 < framenr (dst ! (b + len))" using last(4) pos by simp
      qed
      then show "F + int len \<le> f" by simp
    next
      fix f
      assume "\<not> (F \<le> f \<and> f < F + int len)"
      then show "join_pending src dst a b f \<longleftrightarrow> join_pending src dst (a + len) (b + len) f"
        using join_pending_run [of len src a F dst b f] run by blast
    next
      fix k assume k: "k < len"
      have "join_pending src dst a b (F + int k)"
        unfolding join_pending_def using run [OF k] by (intro disjI1 exI [of _ "a + k"]) simp
      moreover have "joined_factor src dst (F + int k) = join_blend_factor len inverted k"
        using joined_factor_run [OF S D inv blend(1,2) Fa Fb, of k] k
        unfolding len_def inverted_def by simp
      then have "joined_marker src dst (F + int k) = Some (g k)"
        using joined_marker_both [OF S D, of "a + k" "b + k" "F + int k"] run [OF k]
        unfolding g_def by simp
      ultimately show "join_pending src dst a b (F + int k)
          \<and> joined_marker src dst (F + int k) = Some (g k)" by simp
    qed
  qed
qed

text \<open>
  C2. For tracks whose marker arrays are strictly sorted by frame, the markers that
  \<^verbatim>\<open>BKE_tracking_tracks_join\<close> stores are strictly sorted by frame, and the marker stored at
  any frame is the one of the specification: the marker of the only track that has the
  frame; the destination marker when the source marker is disabled and otherwise the source
  marker when the destination marker is disabled; and, when both are enabled, the destination
  marker with the position interpolated from the destination to the source position with the
  factor \<open>j / (len - 1)\<close> (or \<open>1 / 2\<close> when \<open>len\<close> is 1), where \<open>len\<close> is the length of the maximal
  run of consecutive frames at which both tracks are enabled and \<open>j\<close> the place of the frame in
  that run, the factor being replaced by one minus the factor when the destination has no
  enabled marker at the frame before the run. Positions are real numbers here.
\<close>

theorem tracks_join_blend:
  assumes "sorted_wrt (<) (map framenr (markers dst_track))"
    and "sorted_wrt (<) (map framenr (markers src_track))"
  shows "sorted_wrt (<) (map framenr (markers (BKE_tracking_tracks_join dst_track src_track)))
    \<and> (\<forall>f. marker_at (markers (BKE_tracking_tracks_join dst_track src_track)) f
          = joined_marker (markers src_track) (markers dst_track) f)"
proof -
  let ?src = "markers src_track" and ?dst = "markers dst_track"
  have inv0: "join_inv ?src ?dst 0 0" by (simp add: join_inv_def)
  note loop = tracks_join_loop_correct [OF assms(2) assms(1) inv0]
  have none: "joined_marker ?src ?dst f = None" if "\<not> join_pending ?src ?dst 0 0 f" for f
  proof -
    have "\<forall>i<length ?src. framenr (?src ! i) \<noteq> f" "\<forall>i<length ?dst. framenr (?dst ! i) \<noteq> f"
      using that unfolding join_pending_def by auto
    then have "marker_at ?src f = None" "marker_at ?dst f = None"
      by (simp_all add: marker_at_None)
    then show ?thesis unfolding joined_marker_def by simp
  qed
  have "marker_at (tracks_join_loop ?src ?dst 0 0) f = joined_marker ?src ?dst f" for f
    using loop none [of f] by (cases "join_pending ?src ?dst 0 0 f") simp_all
  then show ?thesis using loop unfolding BKE_tracking_tracks_join_def by simp
qed

theorem tracks_join_blend_witness:
  "sorted_wrt (<) (map framenr (join_example_dst False))
   \<and> sorted_wrt (<) (map framenr (join_example_dst True))
   \<and> sorted_wrt (<) (map framenr join_example_src)
   \<and> map (\<lambda>f. map_option pos (marker_at (markers (BKE_tracking_tracks_join
        (join_example_track (join_example_dst False)) (join_example_track join_example_src))) f))
        [1, 2, 3, 4, 5, 6, 7]
      = [Some (0, 0), Some (0, 0), Some (0, 0), Some (1 / 2, 1 / 2), Some (1, 1), Some (1, 1),
         Some (1, 1)]
   \<and> map (\<lambda>f. map_option pos (marker_at (markers (BKE_tracking_tracks_join
        (join_example_track (join_example_dst True)) (join_example_track join_example_src))) f))
        [1, 2, 3, 4, 5, 6, 7]
      = [Some (0, 0), Some (0, 0), Some (1, 1), Some (1 / 2, 1 / 2), Some (0, 0), Some (1, 1),
         Some (1, 1)]"
proof -
  have s1: "sorted_wrt (<) (map framenr (join_example_dst False))"
    and s2: "sorted_wrt (<) (map framenr (join_example_dst True))"
    and s3: "sorted_wrt (<) (map framenr join_example_src)"
    by (simp_all add: join_example_dst_def join_example_src_def join_marker_def
        marker_at_frame_def)
  have m: "markers (join_example_track ms) = ms" for ms
    by (simp add: join_example_track_def)
  have ev: "map (\<lambda>f. map_option pos (joined_marker join_example_src (join_example_dst False) f))
        [1, 2, 3, 4, 5, 6, 7]
      = [Some (0, 0), Some (0, 0), Some (0, 0), Some (1 / 2, 1 / 2), Some (1, 1), Some (1, 1),
         Some (1, 1)]"
    "map (\<lambda>f. map_option pos (joined_marker join_example_src (join_example_dst True) f))
        [1, 2, 3, 4, 5, 6, 7]
      = [Some (0, 0), Some (0, 0), Some (1, 1), Some (1 / 2, 1 / 2), Some (0, 0), Some (1, 1),
         Some (1, 1)]"
    by (simp_all add: joined_marker_def joined_factor_def marker_at_def enabled_at_def
        join_example_dst_def join_example_src_def join_marker_def marker_at_frame_def
        interp_v2_v2v2_def Let_def)
  show ?thesis
    using tracks_join_blend [of "join_example_track (join_example_dst False)"
        "join_example_track join_example_src"]
      tracks_join_blend [of "join_example_track (join_example_dst True)"
        "join_example_track join_example_src"]
      s1 s2 s3 ev
    unfolding m by simp
qed

end
